theory Spec2Isabelle
  imports Main "HOL-Library.Word" "HOL-Library.Monad_Syntax" "HOL-Library.Sublist"
begin

unbundle bit_operations_syntax

section \<open>The process and its operating system\<close>

text \<open>
  \<^verbatim>\<open>createprocess.cpp\<close> is one C++ function, \<^verbatim>\<open>ForkAndExecProcess\<close>, and three
  small helpers. Everything it does is a system call, a store through an out pointer or a
  change of \<^verbatim>\<open>errno\<close>, so the embedding runs the function on an explicit process state:
  the value of \<^verbatim>\<open>errno\<close>, the descriptor table, the memory behind the out pointers, and
  the list of system calls made so far.

  The operating system is a parameter. Call number \<open>t\<close> of a run (the length of the list
  of calls made before it) fails with \<open>e\<close> when \<open>fault k t = Some e\<close>; a \<^verbatim>\<open>fork\<close> that does not
  fail returns \<open>fork_pid k t\<close>, which is 0 in the child; a \<^verbatim>\<open>setsid\<close> that does not fail
  returns a positive session id. What does not depend on the system's mood is fixed as POSIX
  fixes it: \<^verbatim>\<open>pipe\<close> hands out the two lowest free descriptors, read end first, and leaves
  the array alone when it fails; \<^verbatim>\<open>close\<close> and \<^verbatim>\<open>dup2\<close> of a descriptor that is not open, and
  \<^verbatim>\<open>dup2\<close> onto a negative descriptor, fail with \<^verbatim>\<open>EBADF\<close>; \<^verbatim>\<open>close\<close> releases the
  descriptor even when it reports an error (as Linux does); a failing call sets \<^verbatim>\<open>errno\<close>
  and a successful one leaves it alone.
\<close>

type_synonym fd = int
type_synonym addr = nat
type_synonym int32 = "32 word"

datatype pipe_dir = ReadEnd | WriteEnd

datatype fobj =
    PipeEnd nat pipe_dir  \<comment> \<open>an end of the pipe created by call number n\<close>
  | File nat              \<comment> \<open>anything else the caller had open\<close>

datatype event =
    Access string int
  | Pipe "(fd \<times> fd) option"   \<comment> \<open>\<open>Some (r, w)\<close>: the descriptors created; \<open>None\<close>: the call failed\<close>
  | Fork
  | Close fd
  | Dup2 fd fd
  | Chdir string
  | Setsid
  | Execve string "string list" "string list"
  | Exit int

record proc =
  errno :: int
  fdtab :: "(fd \<times> fobj) list"
  mem :: "addr \<Rightarrow> int"
  trace :: "event list"

record kernel =
  fault :: "nat \<Rightarrow> int option"
  fork_pid :: "nat \<Rightarrow> nat"
  session_id :: "nat \<Rightarrow> nat"

definition EINTR :: int where "EINTR = 4"
definition EBADF :: int where "EBADF = 9"
definition EINVAL :: int where "EINVAL = 22"
definition EXIT_FAILURE :: int where "EXIT_FAILURE = 1"
definition X_OK :: int where "X_OK = 1"
definition STDIN_FILENO :: fd where "STDIN_FILENO = 0"
definition STDOUT_FILENO :: fd where "STDOUT_FILENO = 1"
definition STDERR_FILENO :: fd where "STDERR_FILENO = 2"

subsection \<open>The descriptor table\<close>

definition is_open :: "(fd \<times> fobj) list \<Rightarrow> fd \<Rightarrow> bool" where
  "is_open tab d = (d \<in> set (map fst tab))"

definition release :: "fd \<Rightarrow> (fd \<times> fobj) list \<Rightarrow> (fd \<times> fobj) list" where
  "release d tab = filter (\<lambda>e. fst e \<noteq> d) tab"

fun free_from :: "nat \<Rightarrow> fd \<Rightarrow> fd list \<Rightarrow> fd" where
  "free_from 0 n ds = n"
| "free_from (Suc f) n ds = (if n \<in> set ds then free_from f (n + 1) ds else n)"

definition lowest_free :: "(fd \<times> fobj) list \<Rightarrow> fd" where
  "lowest_free tab = free_from (length tab) 0 (map fst tab)"

subsection \<open>System calls\<close>

definition now :: "proc \<Rightarrow> nat" where
  "now s = length (trace s)"

definition called :: "event \<Rightarrow> proc \<Rightarrow> proc" where
  "called e s = s\<lparr>trace := trace s @ [e]\<rparr>"

definition failing :: "int \<Rightarrow> proc \<Rightarrow> proc" where
  "failing e s = s\<lparr>errno := e\<rparr>"

definition sys_access :: "kernel \<Rightarrow> string \<Rightarrow> int \<Rightarrow> proc \<Rightarrow> int \<times> proc" where
  "sys_access k path mode s =
     (case fault k (now s) of
        None \<Rightarrow> (0, called (Access path mode) s)
      | Some e \<Rightarrow> (-1, failing e (called (Access path mode) s)))"

definition sys_pipe :: "kernel \<Rightarrow> fd \<times> fd \<Rightarrow> proc \<Rightarrow> int \<times> (fd \<times> fd) \<times> proc" where
  "sys_pipe k fds s =
     (case fault k (now s) of
        Some e \<Rightarrow> (-1, fds, failing e (called (Pipe None) s))
      | None \<Rightarrow>
          (let r = lowest_free (fdtab s);
               tab1 = (r, PipeEnd (now s) ReadEnd) # fdtab s;
               w = lowest_free tab1;
               tab2 = (w, PipeEnd (now s) WriteEnd) # tab1
           in (0, (r, w), called (Pipe (Some (r, w))) (s\<lparr>fdtab := tab2\<rparr>))))"

definition sys_fork :: "kernel \<Rightarrow> proc \<Rightarrow> int \<times> proc" where
  "sys_fork k s =
     (case fault k (now s) of
        None \<Rightarrow> (int (fork_pid k (now s)), called Fork s)
      | Some e \<Rightarrow> (-1, failing e (called Fork s)))"

definition sys_close :: "kernel \<Rightarrow> fd \<Rightarrow> proc \<Rightarrow> int \<times> proc" where
  "sys_close k d s =
     (if \<not> is_open (fdtab s) d then (-1, failing EBADF (called (Close d) s))
      else case fault k (now s) of
        None \<Rightarrow> (0, called (Close d) (s\<lparr>fdtab := release d (fdtab s)\<rparr>))
      | Some e \<Rightarrow> (-1, failing e (called (Close d) (s\<lparr>fdtab := release d (fdtab s)\<rparr>))))"

definition sys_dup2 :: "kernel \<Rightarrow> fd \<Rightarrow> fd \<Rightarrow> proc \<Rightarrow> int \<times> proc" where
  "sys_dup2 k oldfd newfd s =
     (case (if newfd < 0 then None else map_of (fdtab s) oldfd) of
        None \<Rightarrow> (-1, failing EBADF (called (Dup2 oldfd newfd) s))
      | Some obj \<Rightarrow>
         (case fault k (now s) of
            Some e \<Rightarrow> (-1, failing e (called (Dup2 oldfd newfd) s))
          | None \<Rightarrow>
              if oldfd = newfd then (newfd, called (Dup2 oldfd newfd) s)
              else (newfd, called (Dup2 oldfd newfd)
                             (s\<lparr>fdtab := (newfd, obj) # release newfd (fdtab s)\<rparr>))))"

definition sys_chdir :: "kernel \<Rightarrow> string \<Rightarrow> proc \<Rightarrow> int \<times> proc" where
  "sys_chdir k path s =
     (case fault k (now s) of
        None \<Rightarrow> (0, called (Chdir path) s)
      | Some e \<Rightarrow> (-1, failing e (called (Chdir path) s)))"

definition sys_setsid :: "kernel \<Rightarrow> proc \<Rightarrow> int \<times> proc" where
  "sys_setsid k s =
     (case fault k (now s) of
        None \<Rightarrow> (1 + int (session_id k (now s)), called Setsid s)
      | Some e \<Rightarrow> (-1, failing e (called Setsid s)))"

text \<open>
  \<^verbatim>\<open>execve\<close> returns only when it fails: \<open>Inl\<close> is the process after the failed call,
  \<open>Inr\<close> the process at the moment its image is replaced.
\<close>

definition sys_execve ::
  "kernel \<Rightarrow> string \<Rightarrow> string list \<Rightarrow> string list \<Rightarrow> proc \<Rightarrow> proc + proc" where
  "sys_execve k path args env s =
     (case fault k (now s) of
        None \<Rightarrow> Inr (called (Execve path args env) s)
      | Some e \<Rightarrow> Inl (failing e (called (Execve path args env) s)))"

subsection \<open>The ways a run of the function ends\<close>

datatype outcome =
    Returned int   \<comment> \<open>\<^verbatim>\<open>return\<close> to the caller\<close>
  | Exited int     \<comment> \<open>\<^verbatim>\<open>_exit(status)\<close>\<close>
  | Replaced       \<comment> \<open>\<^verbatim>\<open>execve\<close> succeeded: this code is gone\<close>
  | Aborted        \<comment> \<open>a failed \<^verbatim>\<open>assert\<close>\<close>
  | Faulted        \<comment> \<open>a store through \<^verbatim>\<open>nullptr\<close>\<close>

text \<open>
  A pointer is an address or \<^verbatim>\<open>nullptr\<close> (\<open>None\<close>). A store through \<^verbatim>\<open>nullptr\<close> has no
  defined behaviour in C++; the model stops the run there with \<open>Faulted\<close>.
\<close>

definition store :: "addr option \<Rightarrow> int \<Rightarrow> proc \<Rightarrow> proc option" where
  "store p v s = (case p of None \<Rightarrow> None | Some a \<Rightarrow> Some (s\<lparr>mem := (mem s)(a := v)\<rparr>))"

section \<open>createprocess.cpp\<close>

definition CREATE_NEW_PROCESS_SESSION :: int32 where
  "CREATE_NEW_PROCESS_SESSION = 0x00000001"

text \<open>\<^verbatim>\<open>int fds[2]\<close> is the pair \<open>(fds[0], fds[1])\<close>.\<close>

definition READ_END_OF_PIPE :: "fd \<times> fd \<Rightarrow> fd" where
  "READ_END_OF_PIPE fds = fst fds"

definition WRITE_END_OF_PIPE :: "fd \<times> fd \<Rightarrow> fd" where
  "WRITE_END_OF_PIPE fds = snd fds"

text \<open>\<^verbatim>\<open>{ -1, -1 }\<close>, the initial value of the three arrays.\<close>

definition no_pipe :: "fd \<times> fd" where
  "no_pipe = (-1, -1)"

definition CloseIfOpen :: "kernel \<Rightarrow> fd \<Rightarrow> proc \<Rightarrow> proc" where
  "CloseIfOpen k d s = (if d \<ge> 0 then snd (sys_close k d s) else s)"

definition CheckInterrupted :: "int \<Rightarrow> proc \<Rightarrow> bool" where
  "CheckInterrupted result s = (result < 0 \<and> errno s = EINTR)"

partial_function (option) Dup2WithInterruptedRetry ::
  "kernel \<Rightarrow> fd \<Rightarrow> fd \<Rightarrow> proc \<Rightarrow> (int \<times> proc) option" where
  "Dup2WithInterruptedRetry k oldfd newfd s =
     (case sys_dup2 k oldfd newfd s of (result, s') \<Rightarrow>
        if CheckInterrupted result s' then Dup2WithInterruptedRetry k oldfd newfd s'
        else Some (result, s'))"

text \<open>The two \<^verbatim>\<open>while (CheckInterrupted(result = ...));\<close> loops of the child branch.\<close>

partial_function (option) chdir_retry :: "kernel \<Rightarrow> string \<Rightarrow> proc \<Rightarrow> (int \<times> proc) option" where
  "chdir_retry k dir s =
     (case sys_chdir k dir s of (result, s') \<Rightarrow>
        if CheckInterrupted result s' then chdir_retry k dir s' else Some (result, s'))"

partial_function (option) setsid_retry :: "kernel \<Rightarrow> proc \<Rightarrow> (int \<times> proc) option" where
  "setsid_retry k s =
     (case sys_setsid k s of (result, s') \<Rightarrow>
        if CheckInterrupted result s' then setsid_retry k s' else Some (result, s'))"

text \<open>The three loops unfold by their defining equations, also when they are evaluated.\<close>

declare Dup2WithInterruptedRetry.simps [code]
declare chdir_retry.simps [code]
declare setsid_retry.simps [code]

record args =
  filename :: "string option"
  argv :: "string list option"
  envp :: "string list option"
  cwd :: "string option"
  redirectStdin :: int32
  redirectStdout :: int32
  redirectStderr :: int32
  creationFlags :: int32
  childPid :: "addr option"
  stdinFd :: "addr option"
  stdoutFd :: "addr option"
  stderrFd :: "addr option"

text \<open>\<^verbatim>\<open>_exit(errno != 0 ? errno : EXIT_FAILURE)\<close>\<close>

definition exit_errno :: "proc \<Rightarrow> outcome \<times> proc" where
  "exit_errno s =
     (let status = (if errno s \<noteq> 0 then errno s else EXIT_FAILURE)
      in (Exited status, called (Exit status) s))"

text \<open>\<^verbatim>\<open>redirect && pipe(fds) != 0\<close>, with the array and the process it leaves.\<close>

definition pipe_failed :: "kernel \<Rightarrow> int32 \<Rightarrow> fd \<times> fd \<Rightarrow> proc \<Rightarrow> bool \<times> (fd \<times> fd) \<times> proc" where
  "pipe_failed k redirect fds s =
     (if redirect \<noteq> 0
      then (case sys_pipe k fds s of (r, fds', s') \<Rightarrow> (r \<noteq> 0, fds', s'))
      else (False, fds, s))"

text \<open>
  Lines 99 and 100: the condition
  \<^verbatim>\<open>(redirectStdin && pipe(stdinFds) != 0) || (redirectStdout && pipe(stdoutFds) != 0) || (redirectStderr && pipe(stderrFds) != 0)\<close>,
  evaluated left to right and stopping at the first disjunct that holds. The three arrays
  start as \<^verbatim>\<open>{ -1, -1 }\<close>.
\<close>

definition open_pipes ::
  "kernel \<Rightarrow> args \<Rightarrow> proc \<Rightarrow> bool \<times> (fd \<times> fd) \<times> (fd \<times> fd) \<times> (fd \<times> fd) \<times> proc" where
  "open_pipes k a s1 =
     (case pipe_failed k (redirectStdin a) no_pipe s1 of (f1, stdinFds, s2) \<Rightarrow>
      case (if f1 then (True, no_pipe, s2) else pipe_failed k (redirectStdout a) no_pipe s2)
        of (f2, stdoutFds, s3) \<Rightarrow>
      case (if f2 then (True, no_pipe, s3) else pipe_failed k (redirectStderr a) no_pipe s3)
        of (f3, stderrFds, s4) \<Rightarrow>
      (f3, stdinFds, stdoutFds, stderrFds, s4))"

text \<open>\<^verbatim>\<open>redirect && Dup2WithInterruptedRetry(oldfd, newfd) == -1\<close>\<close>

definition dup2_failed :: "kernel \<Rightarrow> int32 \<Rightarrow> fd \<Rightarrow> fd \<Rightarrow> proc \<Rightarrow> (bool \<times> proc) option" where
  "dup2_failed k redirect oldfd newfd s =
     (if redirect \<noteq> 0
      then do { (r, s') \<leftarrow> Dup2WithInterruptedRetry k oldfd newfd s; Some (r = -1, s') }
      else Some (False, s))"

text \<open>
  Lines 132 to 157 of the child: the working directory, the session and \<^verbatim>\<open>execve\<close>. A step
  that is skipped leaves 0 where the source has no \<^verbatim>\<open>result\<close> to test.
\<close>

definition child_launch :: "kernel \<Rightarrow> args \<Rightarrow> proc \<Rightarrow> (outcome \<times> proc) option" where
  "child_launch k a s9 =
     do {
       (r1, s10) \<leftarrow> (case cwd a of None \<Rightarrow> Some (0, s9) | Some dir \<Rightarrow> chdir_retry k dir s9);
       if r1 = -1 then Some (exit_errno s10)
       else do {
         (r2, s11) \<leftarrow> (if creationFlags a AND CREATE_NEW_PROCESS_SESSION \<noteq> 0
                        then setsid_retry k s10 else Some (0, s10));
         if r2 = -1 then Some (exit_errno s11)
         else
           (case sys_execve k (the (filename a)) (the (argv a)) (the (envp a)) s11 of
              Inr s12 \<Rightarrow> Some (Replaced, s12)
            | Inl s12 \<Rightarrow> Some (exit_errno s12))
       }
     }"

text \<open>Lines 113 to 131, then the launch: the branch taken when \<^verbatim>\<open>fork\<close> returned 0.\<close>

definition child_branch ::
  "kernel \<Rightarrow> args \<Rightarrow> fd \<times> fd \<Rightarrow> fd \<times> fd \<Rightarrow> fd \<times> fd \<Rightarrow> proc \<Rightarrow> (outcome \<times> proc) option" where
  "child_branch k a stdinFds stdoutFds stderrFds s0 =
     (let s1 = CloseIfOpen k (WRITE_END_OF_PIPE stdinFds) s0;
          s2 = CloseIfOpen k (READ_END_OF_PIPE stdoutFds) s1;
          s3 = CloseIfOpen k (READ_END_OF_PIPE stderrFds) s2
      in do {
        (f1, s4) \<leftarrow> dup2_failed k (redirectStdin a) (READ_END_OF_PIPE stdinFds) STDIN_FILENO s3;
        (f2, s5) \<leftarrow> (if f1 then Some (True, s4)
                     else dup2_failed k (redirectStdout a) (WRITE_END_OF_PIPE stdoutFds) STDOUT_FILENO s4);
        (f3, s6) \<leftarrow> (if f2 then Some (True, s5)
                     else dup2_failed k (redirectStderr a) (WRITE_END_OF_PIPE stderrFds) STDERR_FILENO s5);
        if f3 then Some (exit_errno s6)
        else
          (let s7 = CloseIfOpen k (READ_END_OF_PIPE stdinFds) s6;
               s8 = CloseIfOpen k (WRITE_END_OF_PIPE stdoutFds) s7;
               s9 = CloseIfOpen k (WRITE_END_OF_PIPE stderrFds) s8
           in child_launch k a s9)
      })"

text \<open>
  Lines 166 to 191: the label \<^verbatim>\<open>done\<close>. The four stores of the failure branch go through
  the out pointers as the caller passed them.
\<close>

definition done_label ::
  "kernel \<Rightarrow> args \<Rightarrow> bool \<Rightarrow> fd \<times> fd \<Rightarrow> fd \<times> fd \<Rightarrow> fd \<times> fd \<Rightarrow> proc \<Rightarrow> outcome \<times> proc" where
  "done_label k a success stdinFds stdoutFds stderrFds s0 =
     (let priorErrno = errno s0;
          s1 = CloseIfOpen k (READ_END_OF_PIPE stdinFds) s0;
          s2 = CloseIfOpen k (WRITE_END_OF_PIPE stdoutFds) s1;
          s3 = CloseIfOpen k (WRITE_END_OF_PIPE stderrFds) s2
      in if \<not> success then
           (let s4 = CloseIfOpen k (WRITE_END_OF_PIPE stdinFds) s3;
                s5 = CloseIfOpen k (READ_END_OF_PIPE stdoutFds) s4;
                s6 = CloseIfOpen k (READ_END_OF_PIPE stderrFds) s5
            in case store (stdinFd a) (-1) s6 of None \<Rightarrow> (Faulted, s6) | Some s7 \<Rightarrow>
               (case store (stdoutFd a) (-1) s7 of None \<Rightarrow> (Faulted, s7) | Some s8 \<Rightarrow>
               (case store (stderrFd a) (-1) s8 of None \<Rightarrow> (Faulted, s8) | Some s9 \<Rightarrow>
               (case store (childPid a) (-1) s9 of None \<Rightarrow> (Faulted, s9) | Some s10 \<Rightarrow>
                  (Returned (-1), s10\<lparr>errno := priorErrno\<rparr>)))))
         else (Returned 0, s3))"

text \<open>Lines 160 to 164: the parent after a successful \<^verbatim>\<open>fork\<close>.\<close>

definition parent_branch ::
  "kernel \<Rightarrow> args \<Rightarrow> int \<Rightarrow> fd \<times> fd \<Rightarrow> fd \<times> fd \<Rightarrow> fd \<times> fd \<Rightarrow> proc \<Rightarrow> outcome \<times> proc" where
  "parent_branch k a processId stdinFds stdoutFds stderrFds s0 =
     (case store (childPid a) processId s0 of None \<Rightarrow> (Faulted, s0) | Some s1 \<Rightarrow>
     (case store (stdinFd a) (WRITE_END_OF_PIPE stdinFds) s1 of None \<Rightarrow> (Faulted, s1) | Some s2 \<Rightarrow>
     (case store (stdoutFd a) (READ_END_OF_PIPE stdoutFds) s2 of None \<Rightarrow> (Faulted, s2) | Some s3 \<Rightarrow>
     (case store (stderrFd a) (READ_END_OF_PIPE stderrFds) s3 of None \<Rightarrow> (Faulted, s3) | Some s4 \<Rightarrow>
        done_label k a True stdinFds stdoutFds stderrFds s4))))"

text \<open>
  \<^verbatim>\<open>ForkAndExecProcess\<close>. The first argument says whether the build defines \<^verbatim>\<open>NDEBUG\<close>:
  without it, \<^verbatim>\<open>assert(false && "...")\<close> aborts the process; with it, the assert is no
  code at all. The result is \<open>None\<close> when a retry loop of the child never ends.
\<close>

definition ForkAndExecProcess ::
  "bool \<Rightarrow> kernel \<Rightarrow> args \<Rightarrow> proc \<Rightarrow> (outcome \<times> proc) option" where
  "ForkAndExecProcess NDEBUG k a s0 =
     (if filename a = None \<or> argv a = None \<or> envp a = None \<or> stdinFd a = None \<or>
         stdoutFd a = None \<or> stderrFd a = None \<or> childPid a = None
      then (if \<not> NDEBUG then Some (Aborted, s0)
            else Some (done_label k a False no_pipe no_pipe no_pipe (s0\<lparr>errno := EINVAL\<rparr>)))
      else if (redirectStdin a AND NOT 1) \<noteq> 0 \<or> (redirectStdout a AND NOT 1) \<noteq> 0 \<or>
              (redirectStderr a AND NOT 1) \<noteq> 0
      then (if \<not> NDEBUG then Some (Aborted, s0)
            else Some (done_label k a False no_pipe no_pipe no_pipe (s0\<lparr>errno := EINVAL\<rparr>)))
      else
        (case sys_access k (the (filename a)) X_OK s0 of (r, s1) \<Rightarrow>
         if r \<noteq> 0 then Some (done_label k a False no_pipe no_pipe no_pipe s1)
         else
           (case open_pipes k a s1 of (failed, stdinFds, stdoutFds, stderrFds, s4) \<Rightarrow>
            if failed then Some (done_label k a False stdinFds stdoutFds stderrFds s4)
            else
              (case sys_fork k s4 of (processId, s5) \<Rightarrow>
               if processId = -1 then Some (done_label k a False stdinFds stdoutFds stderrFds s5)
               else if processId = 0 then child_branch k a stdinFds stdoutFds stderrFds s5
               else Some (parent_branch k a processId stdinFds stdoutFds stderrFds s5)))))"

section \<open>Vocabulary of the properties\<close>

text \<open>
  Nothing below is code of the repository. These definitions name what the properties talk
  about: the calls a run added to the list, the descriptors it created and closed, and
  the order of the calls of the child.
\<close>

definition new_events :: "proc \<Rightarrow> proc \<Rightarrow> event list" where
  "new_events s s' = drop (length (trace s)) (trace s')"

fun created :: "event list \<Rightarrow> fd list" where
  "created [] = []"
| "created (Pipe (Some (r, w)) # es) = r # w # created es"
| "created (e # es) = created es"

fun closed :: "event list \<Rightarrow> fd list" where
  "closed [] = []"
| "closed (Close d # es) = d # closed es"
| "closed (e # es) = closed es"

definition held :: "fd \<times> fd \<Rightarrow> fd list" where
  "held fds = (if fds = no_pipe then [] else [fst fds, snd fds])"

definition ends :: "nat \<Rightarrow> fd \<times> fd \<Rightarrow> (fd \<times> fobj) list" where
  "ends p fds =
     (if fds = no_pipe then [] else [(snd fds, PipeEnd p WriteEnd), (fst fds, PipeEnd p ReadEnd)])"

definition retried :: "kernel \<Rightarrow> event \<Rightarrow> proc \<Rightarrow> int \<times> proc \<Rightarrow> bool" where
  "retried k e s rs =
     (\<exists>n. trace (snd rs) = trace s @ replicate (Suc n) e
        \<and> mem (snd rs) = mem s \<and> \<not> CheckInterrupted (fst rs) (snd rs)
        \<and> (fst rs = -1 \<longrightarrow> fault k (length (trace (snd rs)) - 1) = Some (errno (snd rs)) \<or> errno (snd rs) = EBADF))"

definition closes :: "fd list \<Rightarrow> event list" where
  "closes ds = map Close (filter (\<lambda>d. 0 \<le> d) ds)"

definition dups :: "int32 \<Rightarrow> fd \<Rightarrow> fd \<Rightarrow> nat \<Rightarrow> event list" where
  "dups redirect oldfd newfd n = (if redirect \<noteq> 0 then replicate (Suc n) (Dup2 oldfd newfd) else [])"

definition child_steps ::
  "args \<Rightarrow> fd \<times> fd \<Rightarrow> fd \<times> fd \<Rightarrow> fd \<times> fd \<Rightarrow> nat \<Rightarrow> nat \<Rightarrow> nat \<Rightarrow> nat \<Rightarrow> nat \<Rightarrow> event list list" where
  "child_steps a A B C n1 n2 n3 n4 n5 =
     [closes [snd A, fst B, fst C],
      dups (redirectStdin a) (fst A) 0 n1 @ dups (redirectStdout a) (snd B) 1 n2
        @ dups (redirectStderr a) (snd C) 2 n3,
      closes [fst A, snd B, snd C],
      (case cwd a of None \<Rightarrow> [] | Some dir \<Rightarrow> replicate (Suc n4) (Chdir dir)),
      (if creationFlags a AND CREATE_NEW_PROCESS_SESSION \<noteq> 0 then replicate (Suc n5) Setsid else []),
      [Execve (the (filename a)) (the (argv a)) (the (envp a))]]"

fun fallible :: "event \<Rightarrow> bool" where
  "fallible (Dup2 oldfd newfd) = True"
| "fallible (Chdir dir) = True"
| "fallible Setsid = True"
| "fallible (Execve path av ev) = True"
| "fallible e = False"

fun retrying :: "event \<Rightarrow> bool" where
  "retrying (Dup2 oldfd newfd) = True"
| "retrying (Chdir dir) = True"
| "retrying Setsid = True"
| "retrying e = False"

definition child_run ::
  "kernel \<Rightarrow> event list \<Rightarrow> proc \<Rightarrow> outcome \<Rightarrow> proc \<Rightarrow> bool" where
  "child_run k script s out s' =
     ((out = Replaced \<and> trace s' = trace s @ script) \<or>
      (\<exists>evs st. out = Exited st \<and> trace s' = trace s @ evs @ [Exit st] \<and> prefix evs script
         \<and> evs \<noteq> [] \<and> fallible (last evs)
         \<and> st = (if errno s' \<noteq> 0 then errno s' else EXIT_FAILURE)
         \<and> (fault k (length (trace s @ evs) - 1) = Some (errno s') \<or> errno s' = EBADF)
         \<and> \<not> (retrying (last evs) \<and> errno s' = EINTR)))"

definition aborted_after :: "kernel \<Rightarrow> event list \<Rightarrow> proc \<Rightarrow> event list \<Rightarrow> proc \<Rightarrow> bool" where
  "aborted_after k script s evs s' =
     (trace s' = trace s @ evs \<and> prefix evs script \<and> evs \<noteq> [] \<and> fallible (last evs)
      \<and> (fault k (length (trace s') - 1) = Some (errno s') \<or> errno s' = EBADF)
      \<and> \<not> (retrying (last evs) \<and> errno s' = EINTR))"

definition null_argument :: "args \<Rightarrow> bool" where
  "null_argument a =
     (filename a = None \<or> argv a = None \<or> envp a = None \<or> stdinFd a = None \<or>
      stdoutFd a = None \<or> stderrFd a = None \<or> childPid a = None)"

definition bad_redirect :: "args \<Rightarrow> bool" where
  "bad_redirect a =
     ((redirectStdin a AND NOT 1) \<noteq> 0 \<or> (redirectStdout a AND NOT 1) \<noteq> 0 \<or>
      (redirectStderr a AND NOT 1) \<noteq> 0)"

definition accessed :: "args \<Rightarrow> proc \<Rightarrow> proc" where
  "accessed a s = called (Access (the (filename a)) X_OK) s"

definition kept_in :: "nat \<Rightarrow> fd \<times> fd \<Rightarrow> (fd \<times> fobj) list" where
  "kept_in p fds = (if fds = no_pipe then [] else [(snd fds, PipeEnd p WriteEnd)])"

definition kept_out :: "nat \<Rightarrow> fd \<times> fd \<Rightarrow> (fd \<times> fobj) list" where
  "kept_out p fds = (if fds = no_pipe then [] else [(fst fds, PipeEnd p ReadEnd)])"

definition fresh_pipes :: "proc \<Rightarrow> fd \<times> fd \<Rightarrow> fd \<times> fd \<Rightarrow> fd \<times> fd \<Rightarrow> bool" where
  "fresh_pipes s A B C =
     (distinct (held A @ held B @ held C) \<and>
      (\<forall>d \<in> set (held A @ held B @ held C). 0 \<le> d \<and> d \<notin> fst ` set (fdtab s)))"

definition prologue :: "args \<Rightarrow> fd \<times> fd \<Rightarrow> fd \<times> fd \<Rightarrow> fd \<times> fd \<Rightarrow> event list" where
  "prologue a A B C =
     Access (the (filename a)) X_OK # map (\<lambda>X. Pipe (Some X)) (filter (\<lambda>X. X \<noteq> no_pipe) [A, B, C])"

definition close_list :: "kernel \<Rightarrow> fd list \<Rightarrow> proc \<Rightarrow> proc" where
  "close_list k ds s = foldl (\<lambda>s d. CloseIfOpen k d s) s ds"

definition cleared :: "args \<Rightarrow> (addr \<Rightarrow> int) \<Rightarrow> (addr \<Rightarrow> int)" where
  "cleared a m = m(the (stdinFd a) := -1, the (stdoutFd a) := -1, the (stderrFd a) := -1,
                   the (childPid a) := -1)"

definition all_closes :: "fd \<times> fd \<Rightarrow> fd \<times> fd \<Rightarrow> fd \<times> fd \<Rightarrow> event list" where
  "all_closes A B C = closes [fst A, snd B, snd C, snd A, fst B, fst C]"

definition flags_match :: "args \<Rightarrow> fd \<times> fd \<Rightarrow> fd \<times> fd \<Rightarrow> fd \<times> fd \<Rightarrow> bool" where
  "flags_match a A B C =
     ((A = no_pipe \<longleftrightarrow> redirectStdin a = 0) \<and> (B = no_pipe \<longleftrightarrow> redirectStdout a = 0) \<and>
      (C = no_pipe \<longleftrightarrow> redirectStderr a = 0))"

definition setup_ok :: "kernel \<Rightarrow> proc \<Rightarrow> nat \<Rightarrow> bool" where
  "setup_ok k s n = (\<forall>t. now s \<le> t \<and> t < now s + n \<longrightarrow> fault k t = None)"

fun setup_event :: "event \<Rightarrow> bool" where
  "setup_event (Access path mode) = True"
| "setup_event (Pipe fds) = True"
| "setup_event Fork = True"
| "setup_event e = False"

definition interrupts_end :: "kernel \<Rightarrow> bool" where
  "interrupts_end k = (\<exists>n. \<forall>t. n \<le> t \<longrightarrow> fault k t \<noteq> Some EINTR)"

definition scripted :: "(nat \<times> int) list \<Rightarrow> nat \<Rightarrow> kernel" where
  "scripted faults pid = \<lparr>fault = map_of faults, fork_pid = (\<lambda>t. pid), session_id = (\<lambda>t. 0)\<rparr>"

definition shell :: proc where
  "shell = \<lparr>errno = 0, fdtab = [(0, File 0), (1, File 1), (2, File 2)], mem = (\<lambda>a. 0), trace = []\<rparr>"

definition request :: args where
  "request = \<lparr>filename = Some ''/bin/cat'', argv = Some [''cat''], envp = Some [],
     cwd = Some ''/tmp'', redirectStdin = 1, redirectStdout = 1, redirectStderr = 0,
     creationFlags = 1, childPid = Some 10, stdinFd = Some 11, stdoutFd = Some 12,
     stderrFd = Some 13\<rparr>"

definition second_pipe_refused :: proc where
  "second_pipe_refused = \<lparr>errno = 24,
     fdtab = [(0, File 0), (1, File 1), (2, File 2)],
     mem = (\<lambda>a. 0)(11 := -1, 12 := -1, 13 := -1, 10 := -1),
     trace = [Access ''/bin/cat'' 1, Pipe (Some (3, 4)), Pipe None, Close 3, Close 4]\<rparr>"

definition rejected_request :: proc where
  "rejected_request = \<lparr>errno = 22, fdtab = [(0, File 0), (1, File 1), (2, File 2)],
     mem = (\<lambda>a. 0)(11 := -1, 12 := -1, 13 := -1, 10 := -1), trace = []\<rparr>"

definition stored_through_null :: proc where
  "stored_through_null = \<lparr>errno = 22, fdtab = [(0, File 0), (1, File 1), (2, File 2)],
     mem = (\<lambda>a. 0)(11 := -1, 12 := -1, 13 := -1), trace = []\<rparr>"

definition not_executable :: proc where
  "not_executable = \<lparr>errno = 13, fdtab = [(0, File 0), (1, File 1), (2, File 2)],
     mem = (\<lambda>a. 0)(11 := -1, 12 := -1, 13 := -1, 10 := -1), trace = [Access ''/bin/cat'' 1]\<rparr>"

definition spawned :: proc where
  "spawned = \<lparr>errno = 0,
     fdtab = [(5, PipeEnd 2 ReadEnd), (4, PipeEnd 1 WriteEnd), (0, File 0), (1, File 1), (2, File 2)],
     mem = (\<lambda>a. 0)(10 := 4242, 11 := 4, 12 := 5, 13 := -1),
     trace = [Access ''/bin/cat'' 1, Pipe (Some (3, 4)), Pipe (Some (5, 6)), Fork, Close 3, Close 6]\<rparr>"

definition launched :: proc where
  "launched = \<lparr>errno = 4,
     fdtab = [(1, PipeEnd 2 WriteEnd), (0, PipeEnd 1 ReadEnd), (2, File 2)],
     mem = (\<lambda>a. 0),
     trace = [Access ''/bin/cat'' 1, Pipe (Some (3, 4)), Pipe (Some (5, 6)), Fork,
       Close 4, Close 5, Dup2 3 0, Dup2 3 0, Dup2 6 1, Close 3, Close 6,
       Chdir ''/tmp'', Setsid, Execve ''/bin/cat'' [''cat''] []]\<rparr>"

definition no_such_directory :: proc where
  "no_such_directory = \<lparr>errno = 2,
     fdtab = [(1, PipeEnd 2 WriteEnd), (0, PipeEnd 1 ReadEnd), (2, File 2)],
     mem = (\<lambda>a. 0),
     trace = [Access ''/bin/cat'' 1, Pipe (Some (3, 4)), Pipe (Some (5, 6)), Fork,
       Close 4, Close 5, Dup2 3 0, Dup2 6 1, Close 3, Close 6,
       Chdir ''/tmp'', Chdir ''/tmp'', Exit 2]\<rparr>"

definition forked_as_child :: "kernel \<Rightarrow> proc \<Rightarrow> proc \<Rightarrow> bool" where
  "forked_as_child k s s' =
     (\<exists>pre post. new_events s s' = pre @ Fork # post \<and> Fork \<notin> set pre
        \<and> fault k (now s + length pre) = None \<and> fork_pid k (now s + length pre) = 0)"

fun before_session :: "event \<Rightarrow> bool" where
  "before_session (Dup2 oldfd newfd) = True"
| "before_session (Chdir dir) = True"
| "before_session e = False"

definition died_before_session :: "proc \<Rightarrow> proc \<Rightarrow> bool" where
  "died_before_session s s' =
     (\<exists>evs e st. new_events s s' = evs @ [e, Exit st] \<and> before_session e)"

definition requested :: "args \<Rightarrow> nat" where
  "requested a = length (filter (\<lambda>r. r \<noteq> 0) [redirectStdin a, redirectStdout a, redirectStderr a])"


definition repeated_while_interrupted :: "kernel \<Rightarrow> event \<Rightarrow> proc \<Rightarrow> int \<times> proc \<Rightarrow> bool" where
  "repeated_while_interrupted k e s rs =
     (\<exists>n. trace (snd rs) = trace s @ replicate (Suc n) e
        \<and> (\<forall>i<n. fault k (now s + i) = Some EINTR)
        \<and> \<not> (fst rs < 0 \<and> errno (snd rs) = EINTR)
        \<and> (fst rs \<noteq> -1 \<longrightarrow> fault k (now s + n) = None)
        \<and> (fst rs = -1 \<longrightarrow> fault k (now s + n) = Some (errno (snd rs))
               \<or> (errno (snd rs) = EBADF \<and> (\<exists>oldfd newfd. e = Dup2 oldfd newfd))))"

definition went_on :: "kernel \<Rightarrow> nat \<Rightarrow> event list \<Rightarrow> nat \<Rightarrow> bool" where
  "went_on k t0 evs i =
     (fallible (evs ! i) \<longrightarrow>
        fault k (t0 + i) = None
        \<or> (retrying (evs ! i) \<and> fault k (t0 + i) = Some EINTR \<and> Suc i < length evs
             \<and> evs ! Suc i = evs ! i))"

definition smooth :: "kernel \<Rightarrow> proc \<Rightarrow> proc \<Rightarrow> bool" where
  "smooth k s s' = (\<exists>evs. trace s' = trace s @ evs \<and> (\<forall>i<length evs. went_on k (now s) evs i))"

definition stopped :: "kernel \<Rightarrow> proc \<Rightarrow> proc \<Rightarrow> bool" where
  "stopped k s s' =
     (\<exists>evs. trace s' = trace s @ evs \<and> evs \<noteq> [] \<and> (\<forall>i<length evs - 1. went_on k (now s) evs i)
        \<and> (fault k (now s + (length evs - 1)) = Some (errno s')
             \<or> (errno s' = EBADF \<and> (\<exists>oldfd newfd. last evs = Dup2 oldfd newfd))))"

definition child_calls :: "kernel \<Rightarrow> proc \<Rightarrow> outcome \<Rightarrow> proc \<Rightarrow> bool" where
  "child_calls k s out s' =
     ((out = Replaced \<and> smooth k s s') \<or>
      (\<exists>st s6. out = Exited st \<and> stopped k s s6 \<and> trace s' = trace s6 @ [Exit st]
          \<and> errno s' = errno s6 \<and> st = (if errno s6 \<noteq> 0 then errno s6 else EXIT_FAILURE)))"

section \<open>The system calls and the helpers, one at a time\<close>

lemma bool_flag: "((x::int32) AND NOT 1 = 0) = (x = 0 \<or> x = 1)"
proof
  assume h: "x AND NOT 1 = 0"
  have b: "\<And>n. bit x n \<Longrightarrow> n = 0"
  proof -
    fix n assume "bit x n"
    show "n = 0"
    proof (rule ccontr)
      assume "n \<noteq> 0"
      with \<open>bit x n\<close> have "bit (x AND NOT 1) n" by (auto simp add: bit_simps dest: bit_imp_le_length)
      with h show False by simp
    qed
  qed
  show "x = 0 \<or> x = 1"
  proof (cases "bit x 0")
    case True
    have "x = 1" by (rule bit_eqI) (use True b in \<open>auto simp: bit_1_iff\<close>)
    then show ?thesis ..
  next
    case False
    have "x = 0" by (rule bit_eqI) (use False b in \<open>auto\<close>)
    then show ?thesis ..
  qed
next
  assume "x = 0 \<or> x = 1"
  then show "x AND NOT 1 = 0" by auto
qed

lemma free_from_fresh: "card (set ds \<inter> {n..}) \<le> f \<Longrightarrow> free_from f n ds \<notin> set ds"
proof (induction f arbitrary: n)
  case 0
  then show ?case by auto
next
  case (Suc f)
  show ?case
  proof (cases "n \<in> set ds")
    case True
    have "set ds \<inter> {n + 1..} = (set ds \<inter> {n..}) - {n}" by auto
    then have "card (set ds \<inter> {n + 1..}) = card (set ds \<inter> {n..}) - 1"
      using True by simp
    with Suc.prems have "card (set ds \<inter> {n + 1..}) \<le> f" by simp
    from Suc.IH [OF this] True show ?thesis by simp
  next
    case False
    then show ?thesis by simp
  qed
qed

lemma free_from_ge: "n \<le> free_from f n ds"
proof (induction f arbitrary: n)
  case 0
  show ?case by simp
next
  case (Suc f)
  have "n \<le> n + 1" by simp
  also have "n + 1 \<le> free_from f (n + 1) ds" by (rule Suc.IH)
  finally show ?case by simp
qed

lemma lowest_free_fresh: "lowest_free tab \<notin> fst ` set tab"
proof -
  have "card (set (map fst tab) \<inter> {0..}) \<le> card (set (map fst tab))"
    by (rule card_mono) auto
  also have "\<dots> \<le> length tab" using card_length [of "map fst tab"] by simp
  finally have "free_from (length tab) 0 (map fst tab) \<notin> set (map fst tab)"
    by (rule free_from_fresh)
  then show ?thesis by (simp add: lowest_free_def)
qed

lemma lowest_free_nonneg: "0 \<le> lowest_free tab"
  by (simp add: lowest_free_def free_from_ge)

lemma lowest_free_neq: "d \<in> fst ` set tab \<Longrightarrow> lowest_free tab \<noteq> d" "d \<in> fst ` set tab \<Longrightarrow> d \<noteq> lowest_free tab"
  using lowest_free_fresh [of tab] by (auto simp: image_iff)

lemma lowest_free_fresh_pair: "(lowest_free tab, obj) \<notin> set tab"
  using lowest_free_fresh [of tab] by (auto simp: image_iff)

lemma called_simps [simp]:
  "errno (called e s) = errno s" "fdtab (called e s) = fdtab s" "mem (called e s) = mem s"
  "trace (called e s) = trace s @ [e]"
  by (simp_all add: called_def)

lemma failing_simps [simp]:
  "errno (failing e s) = e" "fdtab (failing e s) = fdtab s" "mem (failing e s) = mem s"
  "trace (failing e s) = trace s"
  by (simp_all add: failing_def)

lemma release_absent: "d \<notin> fst ` set tab \<Longrightarrow> release d tab = tab"
  by (induction tab) (auto simp: release_def)

lemma fdtab_sys_close: "fdtab (snd (sys_close k d s)) = release d (fdtab s)"
  by (auto simp: sys_close_def is_open_def release_absent split: option.splits)

lemma mem_sys_close: "mem (snd (sys_close k d s)) = mem s"
  by (auto simp: sys_close_def split: option.splits)

lemma trace_sys_close: "trace (snd (sys_close k d s)) = trace s @ [Close d]"
  by (auto simp: sys_close_def split: option.splits)

lemma fdtab_CloseIfOpen: "fdtab (CloseIfOpen k d s) = (if 0 \<le> d then release d (fdtab s) else fdtab s)"
  by (simp add: CloseIfOpen_def fdtab_sys_close)

lemma mem_CloseIfOpen: "mem (CloseIfOpen k d s) = mem s"
  by (simp add: CloseIfOpen_def mem_sys_close)

lemma trace_CloseIfOpen: "trace (CloseIfOpen k d s) = (if 0 \<le> d then trace s @ [Close d] else trace s)"
  by (simp add: CloseIfOpen_def trace_sys_close)

lemmas CloseIfOpen_simps = fdtab_CloseIfOpen mem_CloseIfOpen trace_CloseIfOpen

lemma pipe_failed_cases:
  assumes "pipe_failed k flag no_pipe s = (f, X, s')"
  shows "(flag = 0 \<and> \<not> f \<and> X = no_pipe \<and> s' = s)
       \<or> (flag \<noteq> 0 \<and> f \<and> X = no_pipe \<and> (\<exists>e. fault k (now s) = Some e \<and> s' = failing e (called (Pipe None) s)))
       \<or> (flag \<noteq> 0 \<and> \<not> f \<and> fault k (now s) = None \<and> X \<noteq> no_pipe \<and> 0 \<le> fst X \<and> 0 \<le> snd X \<and> fst X \<noteq> snd X
            \<and> fst X \<notin> fst ` set (fdtab s) \<and> snd X \<notin> fst ` set (fdtab s)
            \<and> s' = called (Pipe (Some X)) (s\<lparr>fdtab := (snd X, PipeEnd (now s) WriteEnd) # (fst X, PipeEnd (now s) ReadEnd) # fdtab s\<rparr>))"
  using assms lowest_free_nonneg [of "fdtab s"] lowest_free_fresh [of "fdtab s"]
    lowest_free_nonneg [of "(lowest_free (fdtab s), PipeEnd (now s) ReadEnd) # fdtab s"]
    lowest_free_fresh [of "(lowest_free (fdtab s), PipeEnd (now s) ReadEnd) # fdtab s"]
  by (auto simp: pipe_failed_def sys_pipe_def Let_def no_pipe_def image_iff split: option.splits if_splits)

lemma open_pipes_spec:
  assumes "open_pipes k a s = (failed, A, B, C, s')"
  shows "mem s' = mem s"
    and "trace s' = trace s @ map (\<lambda>X. Pipe (Some X)) (filter (\<lambda>X. X \<noteq> no_pipe) [A, B, C])
                     @ (if failed then [Pipe None] else [])"
    and "\<exists>p1 p2 p3. fdtab s' = ends p3 C @ ends p2 B @ ends p1 A @ fdtab s"
    and "distinct (held A @ held B @ held C)"
    and "\<forall>d \<in> set (held A @ held B @ held C). 0 \<le> d \<and> d \<notin> fst ` set (fdtab s)"
    and "\<not> failed \<Longrightarrow> errno s' = errno s \<and> (A = no_pipe \<longleftrightarrow> redirectStdin a = 0)
           \<and> (B = no_pipe \<longleftrightarrow> redirectStdout a = 0) \<and> (C = no_pipe \<longleftrightarrow> redirectStderr a = 0)"
    and "failed \<Longrightarrow> fault k (now s' - 1) = Some (errno s')"
proof -
  from assms obtain f1 f2 s2 s3 where
    1: "pipe_failed k (redirectStdin a) no_pipe s = (f1, A, s2)" and
    2: "(if f1 then (True, no_pipe, s2) else pipe_failed k (redirectStdout a) no_pipe s2) = (f2, B, s3)" and
    3: "(if f2 then (True, no_pipe, s3) else pipe_failed k (redirectStderr a) no_pipe s3) = (failed, C, s')"
    by (auto simp: open_pipes_def split: prod.splits)
  note c1 = pipe_failed_cases [OF 1]
  show "mem s' = mem s"
    using c1 2 3 by (auto split: if_splits dest!: pipe_failed_cases)
  show "trace s' = trace s @ map (\<lambda>X. Pipe (Some X)) (filter (\<lambda>X. X \<noteq> no_pipe) [A, B, C])
                     @ (if failed then [Pipe None] else [])"
    using c1 2 3 by (auto split: if_splits dest!: pipe_failed_cases)
  show "\<exists>p1 p2 p3. fdtab s' = ends p3 C @ ends p2 B @ ends p1 A @ fdtab s"
    using c1 2 3 by (auto simp: ends_def split: if_splits dest!: pipe_failed_cases)
  show "distinct (held A @ held B @ held C)"
    using c1 2 3 by (auto simp: held_def image_iff split: if_splits dest!: pipe_failed_cases)
  show "\<forall>d \<in> set (held A @ held B @ held C). 0 \<le> d \<and> d \<notin> fst ` set (fdtab s)"
    using c1 2 3 by (auto simp: held_def image_iff split: if_splits dest!: pipe_failed_cases)
  show "\<not> failed \<Longrightarrow> errno s' = errno s \<and> (A = no_pipe \<longleftrightarrow> redirectStdin a = 0)
           \<and> (B = no_pipe \<longleftrightarrow> redirectStdout a = 0) \<and> (C = no_pipe \<longleftrightarrow> redirectStderr a = 0)"
    using c1 2 3 by (auto split: if_splits dest!: pipe_failed_cases)
  show "failed \<Longrightarrow> fault k (now s' - 1) = Some (errno s')"
    using c1 2 3 by (auto simp: now_def split: if_splits dest!: pipe_failed_cases)
qed

lemma sys_dup2_frame:
  "trace (snd (sys_dup2 k oldfd newfd s)) = trace s @ [Dup2 oldfd newfd]"
  "mem (snd (sys_dup2 k oldfd newfd s)) = mem s"
  by (auto simp: sys_dup2_def split: option.splits)

lemma retried_first:
  assumes "trace s1 = trace s @ [e]" "mem s1 = mem s" "\<not> CheckInterrupted r s1"
    "r = -1 \<longrightarrow> fault k (length (trace s)) = Some (errno s1) \<or> errno s1 = EBADF"
  shows "retried k e s (r, s1)"
  unfolding retried_def using assms by (intro exI [of _ 0]) simp

lemma retried_again:
  assumes "trace s1 = trace s @ [e]" "mem s1 = mem s" "retried k e s1 rs"
  shows "retried k e s rs"
proof -
  from assms(3) obtain n where
    "trace (snd rs) = trace s1 @ replicate (Suc n) e" and
    r: "mem (snd rs) = mem s1" "\<not> CheckInterrupted (fst rs) (snd rs)"
       "(fst rs = -1 \<longrightarrow> fault k (length (trace (snd rs)) - 1) = Some (errno (snd rs)) \<or> errno (snd rs) = EBADF)"
    unfolding retried_def by blast
  then have "trace (snd rs) = trace s @ replicate (Suc (Suc n)) e"
    using assms(1) by (simp add: replicate_append_same)
  with r assms(2) show ?thesis unfolding retried_def by (intro exI [of _ "Suc n"]) simp
qed

lemma Dup2WithInterruptedRetry_spec:
  assumes "Dup2WithInterruptedRetry k oldfd newfd s = Some rs"
  shows "retried k (Dup2 oldfd newfd) s rs"
proof (rule Dup2WithInterruptedRetry.raw_induct
         [where P = "\<lambda>k oldfd newfd s rs. retried k (Dup2 oldfd newfd) s rs", OF _ assms], goal_cases)
  case (1 f k oldfd newfd s rs)
  obtain r s1 where d: "sys_dup2 k oldfd newfd s = (r, s1)" by (cases "sys_dup2 k oldfd newfd s")
  have t1: "trace s1 = trace s @ [Dup2 oldfd newfd]" and m1: "mem s1 = mem s"
    using sys_dup2_frame [of k oldfd newfd s] d by simp_all
  show ?case
  proof (cases "CheckInterrupted r s1")
    case True
    with 1(2) d have "f k oldfd newfd s1 = Some rs" by simp
    from retried_again [OF t1 m1 1(1) [OF this]] show ?thesis .
  next
    case False
    with 1(2) d have rs: "rs = (r, s1)" by simp
    have "r = -1 \<longrightarrow> fault k (length (trace s)) = Some (errno s1) \<or> errno s1 = EBADF"
      using d by (auto simp: sys_dup2_def now_def split: option.splits if_splits)
    from retried_first [OF t1 m1 False this] rs show ?thesis by simp
  qed
qed

lemma Dup2WithInterruptedRetry_returns:
  "fault k (now s + n) \<noteq> Some EINTR \<Longrightarrow> \<exists>rs. Dup2WithInterruptedRetry k oldfd newfd s = Some rs"
proof (induction n arbitrary: s)
  case 0
  obtain r s1 where d: "sys_dup2 k oldfd newfd s = (r, s1)" by (cases "sys_dup2 k oldfd newfd s")
  with 0 have "\<not> CheckInterrupted r s1"
    by (auto simp: sys_dup2_def CheckInterrupted_def EBADF_def EINTR_def split: option.splits if_splits)
  with d show ?case by (subst Dup2WithInterruptedRetry.simps) simp
next
  case (Suc n)
  obtain r s1 where d: "sys_dup2 k oldfd newfd s = (r, s1)" by (cases "sys_dup2 k oldfd newfd s")
  have "now s1 = Suc (now s)" using sys_dup2_frame(1) [of k oldfd newfd s] d by (simp add: now_def)
  with Suc.prems have "fault k (now s1 + n) \<noteq> Some EINTR" by simp
  from Suc.IH [OF this] d show ?case by (subst Dup2WithInterruptedRetry.simps) auto
qed

lemma sys_chdir_frame:
  "trace (snd (sys_chdir k dir s)) = trace s @ [Chdir dir]"
  "mem (snd (sys_chdir k dir s)) = mem s"
  by (auto simp: sys_chdir_def split: option.splits)

lemma sys_setsid_frame:
  "trace (snd (sys_setsid k s)) = trace s @ [Setsid]"
  "mem (snd (sys_setsid k s)) = mem s"
  by (auto simp: sys_setsid_def split: option.splits)

lemma chdir_retry_spec:
  assumes "chdir_retry k dir s = Some rs"
  shows "retried k (Chdir dir) s rs"
proof (rule chdir_retry.raw_induct
         [where P = "\<lambda>k dir s rs. retried k (Chdir dir) s rs", OF _ assms], goal_cases)
  case (1 f k dir s rs)
  obtain r s1 where d: "sys_chdir k dir s = (r, s1)" by (cases "sys_chdir k dir s")
  have t1: "trace s1 = trace s @ [Chdir dir]" and m1: "mem s1 = mem s"
    using sys_chdir_frame [of k dir s] d by simp_all
  show ?case
  proof (cases "CheckInterrupted r s1")
    case True
    with 1(2) d have "f k dir s1 = Some rs" by simp
    from retried_again [OF t1 m1 1(1) [OF this]] show ?thesis .
  next
    case False
    with 1(2) d have rs: "rs = (r, s1)" by simp
    have "r = -1 \<longrightarrow> fault k (length (trace s)) = Some (errno s1) \<or> errno s1 = EBADF"
      using d by (auto simp: sys_chdir_def now_def split: option.splits if_splits)
    from retried_first [OF t1 m1 False this] rs show ?thesis by simp
  qed
qed

lemma setsid_retry_spec:
  assumes "setsid_retry k s = Some rs"
  shows "retried k Setsid s rs"
proof (rule setsid_retry.raw_induct
         [where P = "\<lambda>k s rs. retried k Setsid s rs", OF _ assms], goal_cases)
  case (1 f k s rs)
  obtain r s1 where d: "sys_setsid k s = (r, s1)" by (cases "sys_setsid k s")
  have t1: "trace s1 = trace s @ [Setsid]" and m1: "mem s1 = mem s"
    using sys_setsid_frame [of k s] d by simp_all
  show ?case
  proof (cases "CheckInterrupted r s1")
    case True
    with 1(2) d have "f k s1 = Some rs" by simp
    from retried_again [OF t1 m1 1(1) [OF this]] show ?thesis .
  next
    case False
    with 1(2) d have rs: "rs = (r, s1)" by simp
    have "r = -1 \<longrightarrow> fault k (length (trace s)) = Some (errno s1) \<or> errno s1 = EBADF"
      using d by (auto simp: sys_setsid_def now_def split: option.splits if_splits)
    from retried_first [OF t1 m1 False this] rs show ?thesis by simp
  qed
qed

lemma chdir_retry_returns:
  "fault k (now s + n) \<noteq> Some EINTR \<Longrightarrow> \<exists>rs. chdir_retry k dir s = Some rs"
proof (induction n arbitrary: s)
  case 0
  obtain r s1 where d: "sys_chdir k dir s = (r, s1)" by (cases "sys_chdir k dir s")
  with 0 have "\<not> CheckInterrupted r s1"
    by (auto simp: sys_chdir_def CheckInterrupted_def split: option.splits if_splits)
  with d show ?case by (subst chdir_retry.simps) simp
next
  case (Suc n)
  obtain r s1 where d: "sys_chdir k dir s = (r, s1)" by (cases "sys_chdir k dir s")
  have "now s1 = Suc (now s)" using sys_chdir_frame(1) [of k dir s] d by (simp add: now_def)
  with Suc.prems have "fault k (now s1 + n) \<noteq> Some EINTR" by simp
  from Suc.IH [OF this] d show ?case by (subst chdir_retry.simps) auto
qed

lemma setsid_retry_returns:
  "fault k (now s + n) \<noteq> Some EINTR \<Longrightarrow> \<exists>rs. setsid_retry k s = Some rs"
proof (induction n arbitrary: s)
  case 0
  obtain r s1 where d: "sys_setsid k s = (r, s1)" by (cases "sys_setsid k s")
  with 0 have "\<not> CheckInterrupted r s1"
    by (auto simp: sys_setsid_def CheckInterrupted_def split: option.splits if_splits)
  with d show ?case by (subst setsid_retry.simps) simp
next
  case (Suc n)
  obtain r s1 where d: "sys_setsid k s = (r, s1)" by (cases "sys_setsid k s")
  have "now s1 = Suc (now s)" using sys_setsid_frame(1) [of k s] d by (simp add: now_def)
  with Suc.prems have "fault k (now s1 + n) \<noteq> Some EINTR" by simp
  from Suc.IH [OF this] d show ?case by (subst setsid_retry.simps) auto
qed

lemma dup2_failed_spec:
  assumes "dup2_failed k redirect oldfd newfd s = Some (f, s')"
  shows "\<exists>n. trace s' = trace s @ dups redirect oldfd newfd n \<and> mem s' = mem s
           \<and> (f \<longrightarrow> redirect \<noteq> 0 \<and> errno s' \<noteq> EINTR
                  \<and> (fault k (length (trace s') - 1) = Some (errno s') \<or> errno s' = EBADF))"
proof (cases "redirect = 0")
  case True
  with assms show ?thesis by (simp add: dup2_failed_def dups_def)
next
  case False
  with assms obtain r where d: "Dup2WithInterruptedRetry k oldfd newfd s = Some (r, s')" and f: "f = (r = -1)"
    by (auto simp: dup2_failed_def bind_eq_Some_conv)
  from Dup2WithInterruptedRetry_spec [OF d] obtain n where
    "trace s' = trace s @ replicate (Suc n) (Dup2 oldfd newfd)" "mem s' = mem s"
    "\<not> CheckInterrupted r s'"
    "r = -1 \<longrightarrow> fault k (length (trace s') - 1) = Some (errno s') \<or> errno s' = EBADF"
    unfolding retried_def by auto
  with False f show ?thesis
    by (intro exI [of _ n]) (auto simp: dups_def CheckInterrupted_def)
qed

lemma exit_errno_eq:
  "exit_errno s = (out, s') \<longleftrightarrow>
     out = Exited (if errno s \<noteq> 0 then errno s else EXIT_FAILURE) \<and>
     s' = called (Exit (if errno s \<noteq> 0 then errno s else EXIT_FAILURE)) s"
  by (auto simp: exit_errno_def Let_def)

lemma child_run_exit:
  assumes "aborted_after k script s evs s1" "exit_errno s1 = (out, s')"
  shows "child_run k script s out s'"
  using assms unfolding child_run_def aborted_after_def exit_errno_eq
  by (intro disjI2 exI [of _ evs] exI [of _ "if errno s1 \<noteq> 0 then errno s1 else EXIT_FAILURE"]) auto

lemma redirect_phase:
  assumes d1: "dup2_failed k r1 o1 t1 s3 = Some (f1, s4)"
    and d2: "(if f1 then Some (True, s4) else dup2_failed k r2 o2 t2 s4) = Some (f2, s5)"
    and d3: "(if f2 then Some (True, s5) else dup2_failed k r3 o3 t3 s5) = Some (f3, s6)"
  shows "\<exists>n1 n2 n3. mem s6 = mem s3 \<and>
           (if f3 then \<exists>evs. aborted_after k (dups r1 o1 t1 n1 @ dups r2 o2 t2 n2 @ dups r3 o3 t3 n3 @ rest) s3 evs s6
            else trace s6 = trace s3 @ dups r1 o1 t1 n1 @ dups r2 o2 t2 n2 @ dups r3 o3 t3 n3)"
proof -
  from dup2_failed_spec [OF d1] obtain n1 where
    a1: "trace s4 = trace s3 @ dups r1 o1 t1 n1" "mem s4 = mem s3"
      "f1 \<longrightarrow> r1 \<noteq> 0 \<and> errno s4 \<noteq> EINTR \<and> (fault k (length (trace s4) - 1) = Some (errno s4) \<or> errno s4 = EBADF)"
    by blast
  show ?thesis
  proof (cases f1)
    case True
    with d2 d3 have e: "f3" "s6 = s4" by auto
    from True a1 have "aborted_after k (dups r1 o1 t1 n1 @ dups r2 o2 t2 0 @ dups r3 o3 t3 0 @ rest) s3 (dups r1 o1 t1 n1) s6"
      unfolding aborted_after_def e by (simp add: dups_def)
    with e a1 show ?thesis by (intro exI [of _ n1] exI [of _ 0]) auto
  next
    case nf1: False
    with d2 have d2': "dup2_failed k r2 o2 t2 s4 = Some (f2, s5)" by simp
    from dup2_failed_spec [OF d2'] obtain n2 where
      a2: "trace s5 = trace s4 @ dups r2 o2 t2 n2" "mem s5 = mem s4"
        "f2 \<longrightarrow> r2 \<noteq> 0 \<and> errno s5 \<noteq> EINTR \<and> (fault k (length (trace s5) - 1) = Some (errno s5) \<or> errno s5 = EBADF)"
      by blast
    show ?thesis
    proof (cases f2)
      case True
      with d3 have e: "f3" "s6 = s5" by auto
      from True a1 a2 have "aborted_after k (dups r1 o1 t1 n1 @ dups r2 o2 t2 n2 @ dups r3 o3 t3 0 @ rest) s3
          (dups r1 o1 t1 n1 @ dups r2 o2 t2 n2) s6"
        unfolding aborted_after_def e by (simp add: dups_def)
      with e a1 a2 show ?thesis by (intro exI [of _ n1] exI [of _ n2] exI [of _ 0]) auto
    next
      case nf2: False
      with d3 have d3': "dup2_failed k r3 o3 t3 s5 = Some (f3, s6)" by simp
      from dup2_failed_spec [OF d3'] obtain n3 where
        a3: "trace s6 = trace s5 @ dups r3 o3 t3 n3" "mem s6 = mem s5"
          "f3 \<longrightarrow> r3 \<noteq> 0 \<and> errno s6 \<noteq> EINTR \<and> (fault k (length (trace s6) - 1) = Some (errno s6) \<or> errno s6 = EBADF)"
        by blast
      show ?thesis
      proof (cases f3)
        case True
        from True a1 a2 a3 have "aborted_after k (dups r1 o1 t1 n1 @ dups r2 o2 t2 n2 @ dups r3 o3 t3 n3 @ rest) s3
            (dups r1 o1 t1 n1 @ dups r2 o2 t2 n2 @ dups r3 o3 t3 n3) s6"
          unfolding aborted_after_def by (simp add: dups_def)
        with True a1 a2 a3 show ?thesis by (intro exI [of _ n1] exI [of _ n2] exI [of _ n3]) auto
      next
        case False
        with a1 a2 a3 show ?thesis by (intro exI [of _ n1] exI [of _ n2] exI [of _ n3]) auto
      qed
    qed
  qed
qed

lemma child_run_after:
  assumes "child_run k script s1 out s'" "trace s1 = trace s0 @ pre"
  shows "child_run k (pre @ script) s0 out s'"
proof -
  from assms(1) consider
    (completed) "out = Replaced" "trace s' = trace s1 @ script"
  | (exited) evs st where "out = Exited st" "trace s' = trace s1 @ evs @ [Exit st]" "prefix evs script"
      "evs \<noteq> []" "fallible (last evs)" "st = (if errno s' \<noteq> 0 then errno s' else EXIT_FAILURE)"
      "fault k (length (trace s1 @ evs) - 1) = Some (errno s') \<or> errno s' = EBADF"
      "\<not> (retrying (last evs) \<and> errno s' = EINTR)"
    unfolding child_run_def by blast
  then show ?thesis
  proof cases
    case completed
    with assms(2) show ?thesis unfolding child_run_def by simp
  next
    case exited
    with assms(2) show ?thesis unfolding child_run_def
      by (intro disjI2 exI [of _ "pre @ evs"] exI [of _ st]) (simp add: add.assoc)
  qed
qed

lemma retried_aborted:
  assumes "retried k e s (r, s1)" "r = -1" "fallible e" "retrying e"
  shows "\<exists>n. aborted_after k (replicate (Suc n) e @ rest) s (replicate (Suc n) e) s1"
proof -
  from assms(1) obtain n where
    "trace s1 = trace s @ replicate (Suc n) e" "\<not> CheckInterrupted r s1"
    "r = -1 \<longrightarrow> fault k (length (trace s1) - 1) = Some (errno s1) \<or> errno s1 = EBADF"
    unfolding retried_def by auto
  with assms(2-) show ?thesis
    unfolding aborted_after_def by (intro exI [of _ n]) (simp add: CheckInterrupted_def)
qed

lemma exec_phase:
  assumes "(case sys_execve k path av ev s of Inr s12 \<Rightarrow> Some (Replaced, s12)
            | Inl s12 \<Rightarrow> Some (exit_errno s12)) = Some (out, s')"
  shows "child_run k [Execve path av ev] s out s'"
proof (cases "fault k (now s)")
  case None
  with assms show ?thesis by (auto simp: sys_execve_def child_run_def)
next
  case (Some e)
  with assms have x: "exit_errno (failing e (called (Execve path av ev) s)) = (out, s')"
    by (simp add: sys_execve_def)
  have "aborted_after k [Execve path av ev] s [Execve path av ev] (failing e (called (Execve path av ev) s))"
    using Some by (simp add: aborted_after_def now_def)
  from child_run_exit [OF this x] show ?thesis .
qed

lemma session_phase:
  assumes "do { (r2, s11) \<leftarrow> (if flag then setsid_retry k s10 else Some (0, s10));
               if r2 = -1 then Some (exit_errno s11)
               else (case sys_execve k path av ev s11 of Inr s12 \<Rightarrow> Some (Replaced, s12)
                     | Inl s12 \<Rightarrow> Some (exit_errno s12)) } = Some (out, s')"
  shows "\<exists>n5. child_run k ((if flag then replicate (Suc n5) Setsid else []) @ [Execve path av ev]) s10 out s'"
proof (cases flag)
  case False
  with assms exec_phase [of k path av ev s10 out s'] show ?thesis by simp
next
  case True
  with assms obtain r2 s11 where r: "setsid_retry k s10 = Some (r2, s11)" and
    x: "(if r2 = -1 then Some (exit_errno s11)
         else (case sys_execve k path av ev s11 of Inr s12 \<Rightarrow> Some (Replaced, s12)
               | Inl s12 \<Rightarrow> Some (exit_errno s12))) = Some (out, s')"
    by (auto simp: bind_eq_Some_conv)
  note sp = setsid_retry_spec [OF r]
  show ?thesis
  proof (cases "r2 = -1")
    case failed: True
    from retried_aborted [OF sp failed, of "[Execve path av ev]"] obtain n where
      "aborted_after k (replicate (Suc n) Setsid @ [Execve path av ev]) s10 (replicate (Suc n) Setsid) s11"
      by auto
    from child_run_exit [OF this] x failed True show ?thesis by (intro exI [of _ n]) simp
  next
    case ok: False
    from sp obtain n where t: "trace s11 = trace s10 @ replicate (Suc n) Setsid"
      unfolding retried_def by auto
    from x ok have "child_run k [Execve path av ev] s11 out s'" by (intro exec_phase) simp
    from child_run_after [OF this t] True show ?thesis by (intro exI [of _ n]) simp
  qed
qed

lemma child_launch_runs:
  assumes "child_launch k a s9 = Some (out, s')"
  shows "\<exists>n4 n5. child_run k
           ((case cwd a of None \<Rightarrow> [] | Some dir \<Rightarrow> replicate (Suc n4) (Chdir dir))
            @ (if creationFlags a AND CREATE_NEW_PROCESS_SESSION \<noteq> 0 then replicate (Suc n5) Setsid else [])
            @ [Execve (the (filename a)) (the (argv a)) (the (envp a))]) s9 out s'"
proof -
  let ?flag = "creationFlags a AND CREATE_NEW_PROCESS_SESSION \<noteq> 0"
  let ?exec = "Execve (the (filename a)) (the (argv a)) (the (envp a))"
  let ?session = "\<lambda>s10. do { (r2, s11) \<leftarrow> (if ?flag then setsid_retry k s10 else Some (0, s10));
               if r2 = -1 then Some (exit_errno s11)
               else (case sys_execve k (the (filename a)) (the (argv a)) (the (envp a)) s11 of
                     Inr s12 \<Rightarrow> Some (Replaced, s12) | Inl s12 \<Rightarrow> Some (exit_errno s12)) }"
  show ?thesis
  proof (cases "cwd a")
    case None
    with assms have "?session s9 = Some (out, s')" by (simp add: child_launch_def)
    from session_phase [OF this] None show ?thesis by simp
  next
    case (Some dir)
    with assms obtain r1 s10 where r: "chdir_retry k dir s9 = Some (r1, s10)" and
      x: "(if r1 = -1 then Some (exit_errno s10) else ?session s10) = Some (out, s')"
      by (auto simp: child_launch_def bind_eq_Some_conv)
    note sp = chdir_retry_spec [OF r]
    show ?thesis
    proof (cases "r1 = -1")
      case True
      from retried_aborted [OF sp True, of "(if ?flag then replicate (Suc 0) Setsid else []) @ [?exec]"]
      obtain n where "aborted_after k (replicate (Suc n) (Chdir dir)
           @ (if ?flag then replicate (Suc 0) Setsid else []) @ [?exec]) s9 (replicate (Suc n) (Chdir dir)) s10"
        by auto
      from child_run_exit [OF this] x True Some show ?thesis
        by (intro exI [of _ n] exI [of _ 0]) simp
    next
      case False
      with x have "?session s10 = Some (out, s')" by simp
      from session_phase [OF this] obtain n5 where
        c: "child_run k ((if ?flag then replicate (Suc n5) Setsid else []) @ [?exec]) s10 out s'"
        by blast
      from sp obtain n where t: "trace s10 = trace s9 @ replicate (Suc n) (Chdir dir)"
        unfolding retried_def by auto
      from child_run_after [OF c t] Some show ?thesis
        by (intro exI [of _ n] exI [of _ n5]) simp
    qed
  qed
qed

lemma child_branch_runs:
  assumes "child_branch k a A B C s = Some (out, s')"
  shows "\<exists>n1 n2 n3 n4 n5. child_run k (concat (child_steps a A B C n1 n2 n3 n4 n5)) s out s'"
proof -
  define s3 where "s3 = CloseIfOpen k (fst C) (CloseIfOpen k (fst B) (CloseIfOpen k (snd A) s))"
  have t3: "trace s3 = trace s @ closes [snd A, fst B, fst C]"
    by (simp add: s3_def closes_def trace_CloseIfOpen)
  from assms obtain f1 s4 f2 s5 f3 s6 where
    d1: "dup2_failed k (redirectStdin a) (fst A) 0 s3 = Some (f1, s4)" and
    d2: "(if f1 then Some (True, s4) else dup2_failed k (redirectStdout a) (snd B) 1 s4) = Some (f2, s5)" and
    d3: "(if f2 then Some (True, s5) else dup2_failed k (redirectStderr a) (snd C) 2 s5) = Some (f3, s6)" and
    x: "(if f3 then Some (exit_errno s6)
         else child_launch k a (CloseIfOpen k (snd C) (CloseIfOpen k (snd B) (CloseIfOpen k (fst A) s6))))
        = Some (out, s')"
    unfolding child_branch_def Let_def s3_def READ_END_OF_PIPE_def WRITE_END_OF_PIPE_def
      STDIN_FILENO_def STDOUT_FILENO_def STDERR_FILENO_def
    by (auto simp: bind_eq_Some_conv)
  let ?exec = "Execve (the (filename a)) (the (argv a)) (the (envp a))"
  show ?thesis
  proof (cases f3)
    case True
    let ?rest = "closes [fst A, snd B, snd C]
        @ (case cwd a of None \<Rightarrow> [] | Some dir \<Rightarrow> replicate (Suc 0) (Chdir dir))
        @ (if creationFlags a AND CREATE_NEW_PROCESS_SESSION \<noteq> 0 then replicate (Suc 0) Setsid else [])
        @ [?exec]"
    from redirect_phase [OF d1 d2 d3, of ?rest] True
    obtain n1 n2 n3 evs where "aborted_after k
        (dups (redirectStdin a) (fst A) 0 n1 @ dups (redirectStdout a) (snd B) 1 n2
          @ dups (redirectStderr a) (snd C) 2 n3 @ ?rest) s3 evs s6"
      by auto
    from child_run_exit [OF this] x True have "child_run k
        (dups (redirectStdin a) (fst A) 0 n1 @ dups (redirectStdout a) (snd B) 1 n2
          @ dups (redirectStderr a) (snd C) 2 n3 @ ?rest) s3 out s'"
      by simp
    from child_run_after [OF this t3] show ?thesis
      by (intro exI [of _ n1] exI [of _ n2] exI [of _ n3] exI [of _ 0])
        (simp add: child_steps_def)
  next
    case False
    define s9 where "s9 = CloseIfOpen k (snd C) (CloseIfOpen k (snd B) (CloseIfOpen k (fst A) s6))"
    from redirect_phase [OF d1 d2 d3, of "[]"] False obtain n1 n2 n3 where
      t6: "trace s6 = trace s3 @ dups (redirectStdin a) (fst A) 0 n1 @ dups (redirectStdout a) (snd B) 1 n2
          @ dups (redirectStderr a) (snd C) 2 n3"
      by auto
    have t9: "trace s9 = trace s @ closes [snd A, fst B, fst C]
          @ (dups (redirectStdin a) (fst A) 0 n1 @ dups (redirectStdout a) (snd B) 1 n2
              @ dups (redirectStderr a) (snd C) 2 n3)
          @ closes [fst A, snd B, snd C]"
      using t6 t3 by (simp add: s9_def closes_def trace_CloseIfOpen)
    from x False have "child_launch k a s9 = Some (out, s')" by (simp add: s9_def)
    from child_launch_runs [OF this] obtain n4 n5 where "child_run k
           ((case cwd a of None \<Rightarrow> [] | Some dir \<Rightarrow> replicate (Suc n4) (Chdir dir))
            @ (if creationFlags a AND CREATE_NEW_PROCESS_SESSION \<noteq> 0 then replicate (Suc n5) Setsid else [])
            @ [?exec]) s9 out s'"
      by blast
    from child_run_after [OF this t9] show ?thesis
      by (intro exI [of _ n1] exI [of _ n2] exI [of _ n3] exI [of _ n4] exI [of _ n5])
        (simp add: child_steps_def)
  qed
qed

lemma ForkAndExecProcess_cases:
  assumes "ForkAndExecProcess nd k a s = Some (out, s')"
  obtains
    (aborted) "null_argument a \<or> bad_redirect a" "\<not> nd" "out = Aborted" "s' = s"
  | (rejected) "null_argument a \<or> bad_redirect a" "nd"
      "(out, s') = done_label k a False no_pipe no_pipe no_pipe (s\<lparr>errno := EINVAL\<rparr>)"
  | (no_access) e where "\<not> null_argument a" "\<not> bad_redirect a" "fault k (now s) = Some e"
      "(out, s') = done_label k a False no_pipe no_pipe no_pipe (failing e (accessed a s))"
  | (no_pipe) A B C s4 where "\<not> null_argument a" "\<not> bad_redirect a" "fault k (now s) = None"
      "open_pipes k a (accessed a s) = (True, A, B, C, s4)"
      "(out, s') = done_label k a False A B C s4"
  | (no_fork) A B C s4 e where "\<not> null_argument a" "\<not> bad_redirect a" "fault k (now s) = None"
      "open_pipes k a (accessed a s) = (False, A, B, C, s4)" "fault k (now s4) = Some e"
      "(out, s') = done_label k a False A B C (failing e (called Fork s4))"
  | (child) A B C s4 where "\<not> null_argument a" "\<not> bad_redirect a" "fault k (now s) = None"
      "open_pipes k a (accessed a s) = (False, A, B, C, s4)" "fault k (now s4) = None"
      "fork_pid k (now s4) = 0" "child_branch k a A B C (called Fork s4) = Some (out, s')"
  | (parent) A B C s4 where "\<not> null_argument a" "\<not> bad_redirect a" "fault k (now s) = None"
      "open_pipes k a (accessed a s) = (False, A, B, C, s4)" "fault k (now s4) = None"
      "fork_pid k (now s4) \<noteq> 0"
      "(out, s') = parent_branch k a (int (fork_pid k (now s4))) A B C (called Fork s4)"
proof (cases "null_argument a \<or> bad_redirect a")
  case True
  with assms aborted rejected show ?thesis
    unfolding ForkAndExecProcess_def null_argument_def bad_redirect_def
    by (cases nd) (auto split: if_splits)
next
  case False
  then have v: "\<not> null_argument a" "\<not> bad_redirect a" by auto
  show ?thesis
  proof (cases "fault k (now s)")
    case (Some e)
    with assms v no_access [of e] show ?thesis
      unfolding ForkAndExecProcess_def null_argument_def bad_redirect_def accessed_def
      by (auto simp: sys_access_def)
  next
    case None
    obtain f A B C s4 where op: "open_pipes k a (accessed a s) = (f, A, B, C, s4)"
      by (cases "open_pipes k a (accessed a s)") auto
    from assms v None op have
      x: "(if f then Some (done_label k a False A B C s4)
           else (case sys_fork k s4 of (processId, s5) \<Rightarrow>
               if processId = -1 then Some (done_label k a False A B C s5)
               else if processId = 0 then child_branch k a A B C s5
               else Some (parent_branch k a processId A B C s5))) = Some (out, s')"
      unfolding ForkAndExecProcess_def null_argument_def bad_redirect_def accessed_def
      by (auto simp: sys_access_def)
    show ?thesis
    proof (cases f)
      case True
      with x op v None no_pipe [of A B C s4] show ?thesis by auto
    next
      case False
      show ?thesis
      proof (cases "fault k (now s4)")
        case (Some e)
        with x False op v None no_fork [of A B C s4 e] show ?thesis
          by (auto simp: sys_fork_def)
      next
        case nf: None
        show ?thesis
        proof (cases "fork_pid k (now s4) = 0")
          case True
          with x False op v None nf child [of A B C s4] show ?thesis
            by (auto simp: sys_fork_def)
        next
          case np: False
          with x False op v None nf parent [of A B C s4] show ?thesis
            by (auto simp: sys_fork_def)
        qed
      qed
    qed
  qed
qed

lemma new_events_append: "trace s' = trace s @ evs \<Longrightarrow> new_events s s' = evs"
  by (simp add: new_events_def)

lemma created_append: "created (xs @ ys) = created xs @ created ys"
  by (induction xs rule: created.induct) auto

lemma closed_append: "closed (xs @ ys) = closed xs @ closed ys"
  by (induction xs rule: closed.induct) auto

lemma created_Pipe: "created (Pipe (Some X) # es) = fst X # snd X # created es"
  by (cases X) simp

lemma created_pipes:
  "created (map (\<lambda>X. Pipe (Some X)) (filter (\<lambda>X. X \<noteq> no_pipe) [A, B, C])) = held A @ held B @ held C"
  by (simp add: held_def created_Pipe)

lemma closed_pipes: "closed (map (\<lambda>X. Pipe (Some X)) Xs) = []"
  by (induction Xs) auto

lemma created_closes: "created (closes ds) = []"
  by (induction ds) (auto simp: closes_def)

lemma closed_closes: "closed (closes ds) = filter (\<lambda>d. 0 \<le> d) ds"
  by (induction ds) (auto simp: closes_def)

lemma closes_Cons: "closes (d # ds) = (if 0 \<le> d then Close d # closes ds else closes ds)"
  by (simp add: closes_def)

lemma close_list_Cons: "close_list k (d # ds) s = close_list k ds (CloseIfOpen k d s)"
  by (simp add: close_list_def)

lemma trace_close_list: "trace (close_list k ds s) = trace s @ closes ds"
  by (induction ds arbitrary: s)
    (simp_all add: close_list_Cons trace_CloseIfOpen closes_Cons, simp add: close_list_def closes_def)

lemma mem_close_list: "mem (close_list k ds s) = mem s"
  by (induction ds arbitrary: s) (simp_all add: close_list_Cons mem_CloseIfOpen, simp add: close_list_def)

lemma fdtab_close_list:
  "fdtab (close_list k ds s) = filter (\<lambda>e. \<not> (0 \<le> fst e \<and> fst e \<in> set ds)) (fdtab s)"
proof (induction ds arbitrary: s)
  case Nil
  show ?case by (simp add: close_list_def)
next
  case (Cons d ds)
  show ?case
    by (auto simp: close_list_Cons Cons.IH fdtab_CloseIfOpen release_def intro!: filter_cong)
qed

lemmas close_list_frame = trace_close_list mem_close_list fdtab_close_list

lemma fresh_pipes_apart:
  assumes "fresh_pipes s A B C"
  shows "A \<noteq> no_pipe \<Longrightarrow> 0 \<le> fst A \<and> 0 \<le> snd A \<and> fst A \<noteq> snd A
           \<and> fst A \<notin> {fst B, snd B, fst C, snd C} \<and> snd A \<notin> {fst B, snd B, fst C, snd C}"
    and "B \<noteq> no_pipe \<Longrightarrow> 0 \<le> fst B \<and> 0 \<le> snd B \<and> fst B \<noteq> snd B
           \<and> fst B \<notin> {fst A, snd A, fst C, snd C} \<and> snd B \<notin> {fst A, snd A, fst C, snd C}"
    and "C \<noteq> no_pipe \<Longrightarrow> 0 \<le> fst C \<and> 0 \<le> snd C \<and> fst C \<noteq> snd C
           \<and> fst C \<notin> {fst A, snd A, fst B, snd B} \<and> snd C \<notin> {fst A, snd A, fst B, snd B}"
    and "X = no_pipe \<Longrightarrow> fst X = -1 \<and> snd X = -1"
proof -
  have n: "\<And>X. X = no_pipe \<Longrightarrow> fst X = -1 \<and> snd X = -1" by (simp add: no_pipe_def)
  show "X = no_pipe \<Longrightarrow> fst X = -1 \<and> snd X = -1" by (rule n)
  show "A \<noteq> no_pipe \<Longrightarrow> 0 \<le> fst A \<and> 0 \<le> snd A \<and> fst A \<noteq> snd A
           \<and> fst A \<notin> {fst B, snd B, fst C, snd C} \<and> snd A \<notin> {fst B, snd B, fst C, snd C}"
    using assms n [of B] n [of C] unfolding fresh_pipes_def held_def
    by (cases "B = no_pipe"; cases "C = no_pipe") auto
  show "B \<noteq> no_pipe \<Longrightarrow> 0 \<le> fst B \<and> 0 \<le> snd B \<and> fst B \<noteq> snd B
           \<and> fst B \<notin> {fst A, snd A, fst C, snd C} \<and> snd B \<notin> {fst A, snd A, fst C, snd C}"
    using assms n [of A] n [of C] unfolding fresh_pipes_def held_def
    by (cases "A = no_pipe"; cases "C = no_pipe") auto
  show "C \<noteq> no_pipe \<Longrightarrow> 0 \<le> fst C \<and> 0 \<le> snd C \<and> fst C \<noteq> snd C
           \<and> fst C \<notin> {fst A, snd A, fst B, snd B} \<and> snd C \<notin> {fst A, snd A, fst B, snd B}"
    using assms n [of A] n [of B] unfolding fresh_pipes_def held_def
    by (cases "A = no_pipe"; cases "B = no_pipe") auto
qed

lemma fresh_pipes_untouched:
  assumes "fresh_pipes s A B C" "e \<in> set (fdtab s)" "0 \<le> fst e"
  shows "fst e \<notin> {fst A, snd A, fst B, snd B, fst C, snd C}"
proof
  assume "fst e \<in> {fst A, snd A, fst B, snd B, fst C, snd C}"
  with assms(3) have "fst e \<in> set (held A @ held B @ held C)"
    by (auto simp: held_def no_pipe_def split: if_splits)
  with assms(1,2) show False by (auto simp: image_iff fresh_pipes_def)
qed

lemma pipe_failed_faults:
  assumes "pipe_failed k fl no_pipe s = (f, X, s')"
  shows "now s \<le> now s'" and "\<forall>t. now s \<le> t \<and> t < now s' - (if f then 1 else 0) \<longrightarrow> fault k t = None"
  using pipe_failed_cases [OF assms] by (auto simp: now_def less_Suc_eq_le dest: le_antisym)

lemma open_pipes_faults:
  assumes "open_pipes k a s = (failed, A, B, C, s')"
  shows "\<forall>t. now s \<le> t \<and> t < now s' - (if failed then 1 else 0) \<longrightarrow> fault k t = None"
proof -
  from assms obtain f1 f2 s2 s3 where
    1: "pipe_failed k (redirectStdin a) no_pipe s = (f1, A, s2)" and
    2: "(if f1 then (True, no_pipe, s2) else pipe_failed k (redirectStdout a) no_pipe s2) = (f2, B, s3)" and
    3: "(if f2 then (True, no_pipe, s3) else pipe_failed k (redirectStderr a) no_pipe s3) = (failed, C, s')"
    by (auto simp: open_pipes_def split: prod.splits)
  note w1 = pipe_failed_faults [OF 1]
  show ?thesis
  proof (cases f1)
    case True
    with 2 3 have "failed" "s' = s2" by auto
    with w1 True show ?thesis by simp
  next
    case nf1: False
    with 2 have q2: "pipe_failed k (redirectStdout a) no_pipe s2 = (f2, B, s3)" by simp
    note w2 = pipe_failed_faults [OF q2]
    show ?thesis
    proof (cases f2)
      case True
      with 3 have e: "failed" "s' = s3" by auto
      have "fault k t = None" if t: "now s \<le> t \<and> t < now s3 - 1" for t
      proof (cases "t < now s2")
        case True
        with w1(2) nf1 t show ?thesis by simp
      next
        case False
        with w2(2) \<open>f2\<close> t show ?thesis by simp
      qed
      with e show ?thesis by simp
    next
      case nf2: False
      with 3 have q3: "pipe_failed k (redirectStderr a) no_pipe s3 = (failed, C, s')" by simp
      note w3 = pipe_failed_faults [OF q3]
      have "fault k t = None" if t: "now s \<le> t \<and> t < now s' - (if failed then 1 else 0)" for t
      proof (cases "t < now s2")
        case True
        with w1(2) nf1 t show ?thesis by simp
      next
        case ge2: False
        show ?thesis
        proof (cases "t < now s3")
          case True
          with w2(2) nf2 ge2 show ?thesis by simp
        next
          case False
          with w3(2) t show ?thesis by simp
        qed
      qed
      then show ?thesis by simp
    qed
  qed
qed

lemma done_label_unfold:
  "done_label k a success A B C s =
     (if \<not> success then
        (let s6 = close_list k [fst A, snd B, snd C, snd A, fst B, fst C] s
         in case store (stdinFd a) (-1) s6 of None \<Rightarrow> (Faulted, s6) | Some s7 \<Rightarrow>
            (case store (stdoutFd a) (-1) s7 of None \<Rightarrow> (Faulted, s7) | Some s8 \<Rightarrow>
            (case store (stderrFd a) (-1) s8 of None \<Rightarrow> (Faulted, s8) | Some s9 \<Rightarrow>
            (case store (childPid a) (-1) s9 of None \<Rightarrow> (Faulted, s9) | Some s10 \<Rightarrow>
               (Returned (-1), s10\<lparr>errno := errno s\<rparr>)))))
      else (Returned 0, close_list k [fst A, snd B, snd C] s))"
  by (simp add: done_label_def Let_def close_list_def READ_END_OF_PIPE_def WRITE_END_OF_PIPE_def)

lemma done_label_any:
  "trace (snd (done_label k a False A B C s)) = trace s @ closes [fst A, snd B, snd C, snd A, fst B, fst C]"
  "fdtab (snd (done_label k a False A B C s)) =
     filter (\<lambda>e. \<not> (0 \<le> fst e \<and> fst e \<in> {fst A, snd A, fst B, snd B, fst C, snd C})) (fdtab s)"
  "fst (done_label k a False A B C s) =
     (if stdinFd a = None \<or> stdoutFd a = None \<or> stderrFd a = None \<or> childPid a = None
      then Faulted else Returned (-1))"
  by (auto simp: done_label_unfold Let_def store_def close_list_frame split: option.splits
      intro!: filter_cong)

lemma done_label_failure:
  assumes "stdinFd a = Some p1" "stdoutFd a = Some p2" "stderrFd a = Some p3" "childPid a = Some p4"
  shows "errno (snd (done_label k a False A B C s)) = errno s"
    and "mem (snd (done_label k a False A B C s)) = (mem s)(p1 := -1, p2 := -1, p3 := -1, p4 := -1)"
  using assms by (simp_all add: done_label_unfold Let_def store_def close_list_frame)

lemma parent_branch_success:
  assumes "stdinFd a = Some p1" "stdoutFd a = Some p2" "stderrFd a = Some p3" "childPid a = Some p4"
  shows "fst (parent_branch k a pid A B C s) = Returned 0"
    and "mem (snd (parent_branch k a pid A B C s)) = (mem s)(p4 := pid, p1 := snd A, p2 := fst B, p3 := fst C)"
    and "fdtab (snd (parent_branch k a pid A B C s)) =
           filter (\<lambda>e. \<not> (0 \<le> fst e \<and> fst e \<in> {fst A, snd B, snd C})) (fdtab s)"
    and "trace (snd (parent_branch k a pid A B C s)) = trace s @ closes [fst A, snd B, snd C]"
  using assms
  by (auto simp: parent_branch_def done_label_unfold store_def close_list_frame
      READ_END_OF_PIPE_def WRITE_END_OF_PIPE_def intro!: filter_cong)

lemma release_all:
  assumes "fresh_pipes s A B C"
  shows "filter (\<lambda>e. \<not> (0 \<le> fst e \<and> fst e \<in> {fst A, snd A, fst B, snd B, fst C, snd C}))
           (ends p3 C @ ends p2 B @ ends p1 A @ fdtab s) = fdtab s"
proof -
  note ap = fresh_pipes_apart [OF assms]
  have "filter (\<lambda>e. \<not> (0 \<le> fst e \<and> fst e \<in> {fst A, snd A, fst B, snd B, fst C, snd C})) (fdtab s) = fdtab s"
    unfolding filter_id_conv using fresh_pipes_untouched [OF assms] by blast
  moreover have "filter (\<lambda>e. \<not> (0 \<le> fst e \<and> fst e \<in> {fst A, snd A, fst B, snd B, fst C, snd C})) (ends p1 A) = []"
    using ap(1) by (cases "A = no_pipe") (simp_all add: ends_def)
  moreover have "filter (\<lambda>e. \<not> (0 \<le> fst e \<and> fst e \<in> {fst A, snd A, fst B, snd B, fst C, snd C})) (ends p2 B) = []"
    using ap(2) by (cases "B = no_pipe") (simp_all add: ends_def)
  moreover have "filter (\<lambda>e. \<not> (0 \<le> fst e \<and> fst e \<in> {fst A, snd A, fst B, snd B, fst C, snd C})) (ends p3 C) = []"
    using ap(3) by (cases "C = no_pipe") (simp_all add: ends_def)
  ultimately show ?thesis by simp
qed

lemma release_child_ends:
  assumes "fresh_pipes s A B C"
  shows "filter (\<lambda>e. \<not> (0 \<le> fst e \<and> fst e \<in> {fst A, snd B, snd C}))
           (ends p3 C @ ends p2 B @ ends p1 A @ fdtab s)
         = kept_out p3 C @ kept_out p2 B @ kept_in p1 A @ fdtab s"
proof -
  note ap = fresh_pipes_apart [OF assms]
  have "filter (\<lambda>e. \<not> (0 \<le> fst e \<and> fst e \<in> {fst A, snd B, snd C})) (fdtab s) = fdtab s"
    unfolding filter_id_conv using fresh_pipes_untouched [OF assms] by blast
  moreover have "filter (\<lambda>e. \<not> (0 \<le> fst e \<and> fst e \<in> {fst A, snd B, snd C})) (ends p1 A) = kept_in p1 A"
    using ap(1) ap(4) [of B] ap(4) [of C]
    by (cases "A = no_pipe"; cases "B = no_pipe"; cases "C = no_pipe") (simp_all add: ends_def kept_in_def)
  moreover have "filter (\<lambda>e. \<not> (0 \<le> fst e \<and> fst e \<in> {fst A, snd B, snd C})) (ends p2 B) = kept_out p2 B"
    using ap(2) ap(4) [of A] ap(4) [of C]
    by (cases "A = no_pipe"; cases "B = no_pipe"; cases "C = no_pipe") (simp_all add: ends_def kept_out_def)
  moreover have "filter (\<lambda>e. \<not> (0 \<le> fst e \<and> fst e \<in> {fst A, snd B, snd C})) (ends p3 C) = kept_out p3 C"
    using ap(3) ap(4) [of A] ap(4) [of B]
    by (cases "A = no_pipe"; cases "B = no_pipe"; cases "C = no_pipe") (simp_all add: ends_def kept_out_def)
  ultimately show ?thesis by simp
qed

lemma closed_all:
  assumes "fresh_pipes s A B C"
  shows "set (filter (\<lambda>d. 0 \<le> d) [fst A, snd B, snd C, snd A, fst B, fst C]) = set (held A @ held B @ held C)"
    and "distinct (filter (\<lambda>d. 0 \<le> d) [fst A, snd B, snd C, snd A, fst B, fst C])"
proof -
  note ap = fresh_pipes_apart [OF assms]
  show "set (filter (\<lambda>d. 0 \<le> d) [fst A, snd B, snd C, snd A, fst B, fst C]) = set (held A @ held B @ held C)"
    using ap(1-3) ap(4) [of A] ap(4) [of B] ap(4) [of C]
    by (cases "A = no_pipe"; cases "B = no_pipe"; cases "C = no_pipe") (auto simp: held_def)
  show "distinct (filter (\<lambda>d. 0 \<le> d) [fst A, snd B, snd C, snd A, fst B, fst C])"
    using ap(1-3) ap(4) [of A] ap(4) [of B] ap(4) [of C]
    by (cases "A = no_pipe"; cases "B = no_pipe"; cases "C = no_pipe") auto
qed

section \<open>The runs of ForkAndExecProcess\<close>

lemma open_pipes_fresh:
  assumes "open_pipes k a s = (failed, A, B, C, s')"
  shows "fresh_pipes s A B C"
  using open_pipes_spec(4,5) [OF assms] by (simp add: fresh_pipes_def)

lemma fresh_pipes_cong: "fdtab s1 = fdtab s \<Longrightarrow> fresh_pipes s1 A B C = fresh_pipes s A B C"
  by (simp add: fresh_pipes_def)

lemma length_prologue: "length (prologue a A B C) = Suc (length (filter (\<lambda>X. X \<noteq> no_pipe) [A, B, C]))"
  by (simp add: prologue_def)

lemma after_access:
  assumes op: "open_pipes k a (accessed a s) = (f, A, B, C, s4)"
  shows "fresh_pipes s A B C"
    and "trace s4 = trace s @ prologue a A B C @ (if f then [Pipe None] else [])"
    and "mem s4 = mem s"
    and "\<exists>p1 p2 p3. fdtab s4 = ends p3 C @ ends p2 B @ ends p1 A @ fdtab s"
    and "fault k (now s) = None \<Longrightarrow>
         \<forall>t. now s \<le> t \<and> t < now s + length (prologue a A B C) \<longrightarrow> fault k t = None"
    and "f \<Longrightarrow> fault k (now s + length (prologue a A B C)) = Some (errno s4)"
    and "\<not> f \<Longrightarrow> now s4 = now s + length (prologue a A B C) \<and> errno s4 = errno s
           \<and> (A = no_pipe \<longleftrightarrow> redirectStdin a = 0) \<and> (B = no_pipe \<longleftrightarrow> redirectStdout a = 0)
           \<and> (C = no_pipe \<longleftrightarrow> redirectStderr a = 0)"
proof -
  note sp = open_pipes_spec [OF op]
  have t: "trace s4 = trace s @ prologue a A B C @ (if f then [Pipe None] else [])"
    using sp(2) by (simp add: accessed_def prologue_def)
  show "trace s4 = trace s @ prologue a A B C @ (if f then [Pipe None] else [])" by (rule t)
  show "fresh_pipes s A B C"
    using open_pipes_fresh [OF op] by (simp add: fresh_pipes_def accessed_def)
  show "mem s4 = mem s" using sp(1) by (simp add: accessed_def)
  show "\<exists>p1 p2 p3. fdtab s4 = ends p3 C @ ends p2 B @ ends p1 A @ fdtab s"
    using sp(3) by (simp add: accessed_def)
  have n4: "now s4 = now s + length (prologue a A B C) + (if f then 1 else 0)"
    using t by (simp add: now_def)
  have na: "now (accessed a s) = Suc (now s)" by (simp add: now_def accessed_def)
  show "\<forall>t. now s \<le> t \<and> t < now s + length (prologue a A B C) \<longrightarrow> fault k t = None"
    if "fault k (now s) = None"
  proof (intro allI impI)
    fix t assume h: "now s \<le> t \<and> t < now s + length (prologue a A B C)"
    show "fault k t = None"
    proof (cases "t = now s")
      case True
      with that show ?thesis by simp
    next
      case False
      with h have "now (accessed a s) \<le> t \<and> t < now s4 - (if f then 1 else 0)"
        unfolding na n4 by auto
      with open_pipes_faults [OF op] show ?thesis by blast
    qed
  qed
  show "fault k (now s + length (prologue a A B C)) = Some (errno s4)" if f
    using sp(7) [OF that] n4 that by simp
  show "now s4 = now s + length (prologue a A B C) \<and> errno s4 = errno s
           \<and> (A = no_pipe \<longleftrightarrow> redirectStdin a = 0) \<and> (B = no_pipe \<longleftrightarrow> redirectStdout a = 0)
           \<and> (C = no_pipe \<longleftrightarrow> redirectStderr a = 0)" if "\<not> f"
    using sp(6) [OF that] n4 that by (simp add: accessed_def)
qed

lemma done_label_cleanup:
  assumes ptrs: "\<not> null_argument a"
    and fr: "fresh_pipes s A B C"
    and tab: "fdtab s5 = ends p3 C @ ends p2 B @ ends p1 A @ fdtab s"
    and r: "(out, s') = done_label k a False A B C s5"
  shows "out = Returned (-1)" and "errno s' = errno s5" and "fdtab s' = fdtab s"
    and "mem s' = cleared a (mem s5)" and "trace s' = trace s5 @ all_closes A B C"
proof -
  from ptrs obtain q1 q2 q3 q4 where
    p: "stdinFd a = Some q1" "stdoutFd a = Some q2" "stderrFd a = Some q3" "childPid a = Some q4"
    by (auto simp: null_argument_def)
  from r have o: "out = fst (done_label k a False A B C s5)" and s': "s' = snd (done_label k a False A B C s5)"
    by (metis fst_conv, metis snd_conv)
  show "out = Returned (-1)" using o p by (simp add: done_label_any(3))
  show "errno s' = errno s5" using s' done_label_failure(1) [OF p] by simp
  show "fdtab s' = fdtab s" unfolding s' done_label_any(2) tab by (rule release_all [OF fr])
  show "mem s' = cleared a (mem s5)" using s' done_label_failure(2) [OF p] p by (simp add: cleared_def)
  show "trace s' = trace s5 @ all_closes A B C" using s' by (simp add: done_label_any(1) all_closes_def)
qed

lemma fresh_no_pipes: "fresh_pipes s no_pipe no_pipe no_pipe"
  by (simp add: fresh_pipes_def held_def)

lemma ends_no_pipe: "ends p no_pipe = []"
  by (simp add: ends_def)

lemma all_closes_no_pipe: "all_closes no_pipe no_pipe no_pipe = []"
  by (simp add: all_closes_def closes_def no_pipe_def)

lemma ForkAndExecProcess_runs:
  assumes "ForkAndExecProcess nd k a s = Some (out, s')"
  obtains
    (aborted) "null_argument a \<or> bad_redirect a" "\<not> nd" "out = Aborted" "s' = s"
  | (rejected) "null_argument a \<or> bad_redirect a" "nd" "trace s' = trace s" "fdtab s' = fdtab s"
      "out = (if stdinFd a = None \<or> stdoutFd a = None \<or> stderrFd a = None \<or> childPid a = None
              then Faulted else Returned (-1))"
      "out = Returned (-1) \<Longrightarrow> errno s' = EINVAL \<and> mem s' = cleared a (mem s)"
  | (no_access) e where "\<not> null_argument a" "\<not> bad_redirect a" "fault k (now s) = Some e"
      "out = Returned (-1)" "errno s' = e" "fdtab s' = fdtab s" "mem s' = cleared a (mem s)"
      "trace s' = trace s @ [Access (the (filename a)) X_OK]"
  | (no_pipe) A B C e where "\<not> null_argument a" "\<not> bad_redirect a" "fresh_pipes s A B C"
      "setup_ok k s (length (prologue a A B C))"
      "fault k (now s + length (prologue a A B C)) = Some e"
      "out = Returned (-1)" "errno s' = e" "fdtab s' = fdtab s" "mem s' = cleared a (mem s)"
      "trace s' = trace s @ prologue a A B C @ [Pipe None] @ all_closes A B C"
  | (no_fork) A B C e where "\<not> null_argument a" "\<not> bad_redirect a" "fresh_pipes s A B C"
      "flags_match a A B C" "setup_ok k s (length (prologue a A B C))"
      "fault k (now s + length (prologue a A B C)) = Some e"
      "out = Returned (-1)" "errno s' = e" "fdtab s' = fdtab s" "mem s' = cleared a (mem s)"
      "trace s' = trace s @ prologue a A B C @ [Fork] @ all_closes A B C"
  | (child) A B C s5 where "\<not> null_argument a" "\<not> bad_redirect a" "fresh_pipes s A B C"
      "flags_match a A B C" "setup_ok k s (Suc (length (prologue a A B C)))"
      "fork_pid k (now s + length (prologue a A B C)) = 0"
      "trace s5 = trace s @ prologue a A B C @ [Fork]"
      "child_branch k a A B C s5 = Some (out, s')"
  | (parent) A B C p1 p2 p3 where "\<not> null_argument a" "\<not> bad_redirect a" "fresh_pipes s A B C"
      "flags_match a A B C" "setup_ok k s (Suc (length (prologue a A B C)))"
      "fork_pid k (now s + length (prologue a A B C)) \<noteq> 0"
      "out = Returned 0"
      "fdtab s' = kept_out p3 C @ kept_out p2 B @ kept_in p1 A @ fdtab s"
      "mem s' = (mem s)(the (childPid a) := int (fork_pid k (now s + length (prologue a A B C))),
                       the (stdinFd a) := snd A, the (stdoutFd a) := fst B, the (stderrFd a) := fst C)"
      "trace s' = trace s @ prologue a A B C @ [Fork] @ closes [fst A, snd B, snd C]"
  using assms
proof (cases rule: ForkAndExecProcess_cases)
  case aborted
  then show ?thesis using that(1) by blast
next
  case rejected
  let ?s0 = "s\<lparr>errno := EINVAL\<rparr>"
  from rejected(3) have o: "out = fst (done_label k a False no_pipe no_pipe no_pipe ?s0)"
    and s': "s' = snd (done_label k a False no_pipe no_pipe no_pipe ?s0)"
    by (metis fst_conv, metis snd_conv)
  have t: "trace s' = trace s" unfolding s' done_label_any(1) by (simp add: closes_def no_pipe_def)
  have f: "fdtab s' = fdtab s" unfolding s' done_label_any(2) by (simp add: no_pipe_def)
  have r: "out = (if stdinFd a = None \<or> stdoutFd a = None \<or> stderrFd a = None \<or> childPid a = None
              then Faulted else Returned (-1))"
    unfolding o by (rule done_label_any(3))
  have "errno s' = EINVAL \<and> mem s' = cleared a (mem s)" if "out = Returned (-1)"
  proof -
    from that r obtain q1 q2 q3 q4 where
      p: "stdinFd a = Some q1" "stdoutFd a = Some q2" "stderrFd a = Some q3" "childPid a = Some q4"
      by (auto split: if_splits)
    from done_label_failure [OF p, of k no_pipe no_pipe no_pipe ?s0] p s'
    show ?thesis by (simp add: cleared_def)
  qed
  with rejected(1,2) t f r show ?thesis using that(2) by blast
next
  case (no_access e)
  let ?s1 = "failing e (accessed a s)"
  have tab: "fdtab ?s1 = ends 0 no_pipe @ ends 0 no_pipe @ ends 0 no_pipe @ fdtab s"
    by (simp add: ends_no_pipe accessed_def)
  note d = done_label_cleanup [OF no_access(1) fresh_no_pipes tab no_access(4)]
  from d show ?thesis
    using that(3) [of e] no_access(1-3)
    by (simp add: all_closes_no_pipe accessed_def)
next
  case (no_pipe A B C s4)
  note aa = after_access [OF no_pipe(4)]
  from aa(4) obtain p1 p2 p3 where tab: "fdtab s4 = ends p3 C @ ends p2 B @ ends p1 A @ fdtab s"
    by blast
  note d = done_label_cleanup [OF no_pipe(1) aa(1) tab no_pipe(5)]
  have "setup_ok k s (length (prologue a A B C))"
    unfolding setup_ok_def using aa(5) [OF no_pipe(3)] .
  with d aa(1,2,3,6) no_pipe(1,2) show ?thesis
    using that(4) [of A B C "errno s4"] by simp
next
  case (no_fork A B C s4 e)
  note aa = after_access [OF no_fork(4)]
  let ?s5 = "failing e (called Fork s4)"
  from aa(4) obtain p1 p2 p3 where tab: "fdtab ?s5 = ends p3 C @ ends p2 B @ ends p1 A @ fdtab s"
    by auto
  note d = done_label_cleanup [OF no_fork(1) aa(1) tab no_fork(6)]
  have "setup_ok k s (length (prologue a A B C))"
    unfolding setup_ok_def using aa(5) [OF no_fork(3)] .
  moreover have "flags_match a A B C" using aa(7) by (simp add: flags_match_def)
  moreover have "fault k (now s + length (prologue a A B C)) = Some e"
    using aa(7) no_fork(5) by simp
  ultimately show ?thesis
    using d aa(1,2,3) no_fork(1,2) that(5) [of A B C e] by simp
next
  case (child A B C s4)
  note aa = after_access [OF child(4)]
  have n4: "now s4 = now s + length (prologue a A B C)" using aa(7) by simp
  have "setup_ok k s (Suc (length (prologue a A B C)))"
    unfolding setup_ok_def
  proof (intro allI impI)
    fix t assume "now s \<le> t \<and> t < now s + Suc (length (prologue a A B C))"
    then have "t = now s4 \<or> (now s \<le> t \<and> t < now s + length (prologue a A B C))"
      unfolding n4 by auto
    with aa(5) [OF child(3)] child(5) show "fault k t = None" by blast
  qed
  moreover have "flags_match a A B C" using aa(7) by (simp add: flags_match_def)
  moreover have "trace (called Fork s4) = trace s @ prologue a A B C @ [Fork]"
    using aa(2) by simp
  ultimately show ?thesis
    using aa(1) child(1,2,6,7) n4 that(6) [of A B C "called Fork s4"] by simp
next
  case (parent A B C s4)
  note aa = after_access [OF parent(4)]
  have n4: "now s4 = now s + length (prologue a A B C)" using aa(7) by simp
  let ?pid = "int (fork_pid k (now s4))"
  let ?s5 = "called Fork s4"
  from parent(1) obtain q1 q2 q3 q4 where
    p: "stdinFd a = Some q1" "stdoutFd a = Some q2" "stderrFd a = Some q3" "childPid a = Some q4"
    by (auto simp: null_argument_def)
  note pb = parent_branch_success [OF p, of k ?pid A B C ?s5]
  from parent(7) have o: "out = fst (parent_branch k a ?pid A B C ?s5)"
    and s': "s' = snd (parent_branch k a ?pid A B C ?s5)"
    by (metis fst_conv, metis snd_conv)
  from aa(4) obtain p1 p2 p3 where tab: "fdtab s4 = ends p3 C @ ends p2 B @ ends p1 A @ fdtab s"
    by blast
  have f: "fdtab s' = kept_out p3 C @ kept_out p2 B @ kept_in p1 A @ fdtab s"
    unfolding s' pb(3) using tab release_child_ends [OF aa(1)] by simp
  have m: "mem s' = (mem s)(the (childPid a) := int (fork_pid k (now s + length (prologue a A B C))),
                       the (stdinFd a) := snd A, the (stdoutFd a) := fst B, the (stderrFd a) := fst C)"
    unfolding s' pb(2) using p aa(3) n4 by simp
  have t: "trace s' = trace s @ prologue a A B C @ [Fork] @ closes [fst A, snd B, snd C]"
    unfolding s' pb(4) using aa(2) by simp
  have "setup_ok k s (Suc (length (prologue a A B C)))"
    unfolding setup_ok_def
  proof (intro allI impI)
    fix t assume "now s \<le> t \<and> t < now s + Suc (length (prologue a A B C))"
    then have "t = now s4 \<or> (now s \<le> t \<and> t < now s + length (prologue a A B C))"
      unfolding n4 by auto
    with aa(5) [OF parent(3)] parent(5) show "fault k t = None" by blast
  qed
  moreover have "flags_match a A B C" using aa(7) by (simp add: flags_match_def)
  moreover have "out = Returned 0" using o pb(1) by simp
  ultimately show ?thesis
    using aa(1) parent(1,2,6) n4 f m t that(7) [of A B C p3 p2 p1] by simp
qed

lemma closed_replicate: "(\<And>d. e \<noteq> Close d) \<Longrightarrow> closed (replicate n e) = []"
proof (induction n)
  case 0
  show ?case by simp
next
  case (Suc n)
  then show ?case by (cases e) auto
qed

lemma created_replicate: "(\<And>fds. e \<noteq> Pipe fds) \<Longrightarrow> created (replicate n e) = []"
proof (induction n)
  case 0
  show ?case by simp
next
  case (Suc n)
  then show ?case by (cases e) auto
qed

lemma closed_dups: "closed (dups fl oldfd newfd n) = []"
  unfolding dups_def by (simp add: closed_replicate del: replicate_Suc)

lemma created_dups: "created (dups fl oldfd newfd n) = []"
  unfolding dups_def by (simp add: created_replicate del: replicate_Suc)

lemma closed_child_steps:
  "closed (concat (child_steps a A B C n1 n2 n3 n4 n5)) =
     filter (\<lambda>d. 0 \<le> d) [snd A, fst B, fst C] @ filter (\<lambda>d. 0 \<le> d) [fst A, snd B, snd C]"
proof -
  have 4: "closed (case cwd a of None \<Rightarrow> [] | Some dir \<Rightarrow> replicate (Suc n4) (Chdir dir)) = []"
    by (cases "cwd a") (simp_all add: closed_replicate del: replicate_Suc)
  have 5: "closed (if creationFlags a AND CREATE_NEW_PROCESS_SESSION \<noteq> 0
                   then replicate (Suc n5) Setsid else []) = []"
    by (simp add: closed_replicate del: replicate_Suc)
  show ?thesis
    unfolding child_steps_def concat.simps closed_append closed_closes closed_dups 4 5
    by simp
qed

lemma created_child_steps: "created (concat (child_steps a A B C n1 n2 n3 n4 n5)) = []"
proof -
  have 4: "created (case cwd a of None \<Rightarrow> [] | Some dir \<Rightarrow> replicate (Suc n4) (Chdir dir)) = []"
    by (cases "cwd a") (simp_all add: created_replicate del: replicate_Suc)
  have 5: "created (if creationFlags a AND CREATE_NEW_PROCESS_SESSION \<noteq> 0
                   then replicate (Suc n5) Setsid else []) = []"
    by (simp add: created_replicate del: replicate_Suc)
  show ?thesis
    unfolding child_steps_def concat.simps created_append created_closes created_dups 4 5
    by simp
qed

lemma set_closes: "set (closes ds) = Close ` {d \<in> set ds. 0 \<le> d}"
  by (auto simp: closes_def)

lemma set_dups: "set (dups fl oldfd newfd n) = (if fl \<noteq> 0 then {Dup2 oldfd newfd} else {})"
  by (simp add: dups_def del: replicate_Suc)

lemma set_child_steps:
  "set (concat (child_steps a A B C n1 n2 n3 n4 n5)) =
     set (closes [snd A, fst B, fst C]) \<union> set (dups (redirectStdin a) (fst A) 0 n1)
     \<union> set (dups (redirectStdout a) (snd B) 1 n2) \<union> set (dups (redirectStderr a) (snd C) 2 n3)
     \<union> set (closes [fst A, snd B, snd C])
     \<union> (case cwd a of None \<Rightarrow> {} | Some dir \<Rightarrow> {Chdir dir})
     \<union> (if creationFlags a AND CREATE_NEW_PROCESS_SESSION \<noteq> 0 then {Setsid} else {})
     \<union> {Execve (the (filename a)) (the (argv a)) (the (envp a))}"
  unfolding child_steps_def
  by (cases "cwd a") (simp_all del: replicate_Suc add: Un_assoc)

lemma setup_event_child_steps:
  assumes "e \<in> set (concat (child_steps a A B C n1 n2 n3 n4 n5))"
  shows "\<not> setup_event e"
  using assms unfolding set_child_steps set_closes set_dups
  by (cases "cwd a") (auto split: if_splits)

lemma Setsid_child_steps:
  "Setsid \<in> set (concat (child_steps a A B C n1 n2 n3 n4 n5)) \<longleftrightarrow>
     creationFlags a AND CREATE_NEW_PROCESS_SESSION \<noteq> 0"
  unfolding set_child_steps set_closes set_dups
  by (cases "cwd a") (auto split: if_splits)

lemma prefix_closed: "prefix xs ys \<Longrightarrow> prefix (closed xs) (closed ys)"
  by (auto simp: prefix_def closed_append)

lemma prefix_created_Nil: "prefix xs ys \<Longrightarrow> created ys = [] \<Longrightarrow> created xs = []"
  by (auto simp: prefix_def created_append)

lemma child_run_outcome:
  assumes "child_run k script s out s'"
  shows "out = Replaced \<or> (\<exists>st. out = Exited st)"
  using assms unfolding child_run_def by blast

lemma child_run_events:
  assumes "child_run k script s out s'"
  obtains evs where "trace s' = trace s @ evs" "prefix (closed evs) (closed script)"
    "created script = [] \<Longrightarrow> created evs = []"
    "\<And>e. e \<in> set evs \<Longrightarrow> e \<in> set script \<or> (\<exists>st. e = Exit st)"
proof -
  from assms consider
    (completed) "out = Replaced" "trace s' = trace s @ script"
  | (exited) pre st where "trace s' = trace s @ pre @ [Exit st]" "prefix pre script"
    unfolding child_run_def by blast
  then show ?thesis
  proof cases
    case completed
    then show ?thesis using that [of script] by simp
  next
    case exited
    have "prefix (closed (pre @ [Exit st])) (closed script)"
      using prefix_closed [OF exited(2)] by (simp add: closed_append)
    moreover have "created (pre @ [Exit st]) = []" if "created script = []"
      using prefix_created_Nil [OF exited(2) that] by (simp add: created_append)
    moreover have "e \<in> set script \<or> (\<exists>st. e = Exit st)" if "e \<in> set (pre @ [Exit st])" for e
      using that set_mono_prefix [OF exited(2)] by auto
    ultimately show ?thesis using that [of "pre @ [Exit st]"] exited(1) by simp
  qed
qed

lemma dup2_failed_returns:
  assumes "interrupts_end k"
  shows "\<exists>r. dup2_failed k fl oldfd newfd s = Some r"
proof -
  from assms obtain n where "\<forall>t. n \<le> t \<longrightarrow> fault k t \<noteq> Some EINTR"
    unfolding interrupts_end_def by blast
  then have "fault k (now s + n) \<noteq> Some EINTR" by simp
  from Dup2WithInterruptedRetry_returns [OF this, of oldfd newfd]
  show ?thesis by (auto simp: dup2_failed_def)
qed

lemma child_launch_returns:
  assumes "interrupts_end k"
  shows "\<exists>r. child_launch k a s = Some r"
proof -
  from assms obtain n where n: "\<forall>t. n \<le> t \<longrightarrow> fault k t \<noteq> Some EINTR"
    unfolding interrupts_end_def by blast
  have c: "\<exists>r. chdir_retry k dir s = Some r" for dir s
  proof -
    from n have "fault k (now s + n) \<noteq> Some EINTR" by simp
    from chdir_retry_returns [OF this] show ?thesis .
  qed
  have d: "\<exists>r. setsid_retry k s = Some r" for s
  proof -
    from n have "fault k (now s + n) \<noteq> Some EINTR" by simp
    from setsid_retry_returns [OF this] show ?thesis .
  qed
  obtain r1 s10 where 1: "(case cwd a of None \<Rightarrow> Some (0, s) | Some dir \<Rightarrow> chdir_retry k dir s) = Some (r1, s10)"
    using c by (cases "cwd a") fastforce+
  obtain r2 s11 where 2: "(if creationFlags a AND CREATE_NEW_PROCESS_SESSION \<noteq> 0
                        then setsid_retry k s10 else Some (0, s10)) = Some (r2, s11)"
    using d [of s10] by (cases "creationFlags a AND CREATE_NEW_PROCESS_SESSION \<noteq> 0") fastforce+
  show ?thesis
    unfolding child_launch_def 1 using 2 by (auto split: sum.splits)
qed

lemma child_branch_returns:
  assumes "interrupts_end k"
  shows "\<exists>r. child_branch k a A B C s = Some r"
proof -
  define s3 where "s3 = CloseIfOpen k (READ_END_OF_PIPE C) (CloseIfOpen k (READ_END_OF_PIPE B)
      (CloseIfOpen k (WRITE_END_OF_PIPE A) s))"
  obtain f1 s4 where 1: "dup2_failed k (redirectStdin a) (READ_END_OF_PIPE A) STDIN_FILENO s3 = Some (f1, s4)"
    using dup2_failed_returns [OF assms] by fastforce
  obtain f2 s5 where 2: "(if f1 then Some (True, s4)
      else dup2_failed k (redirectStdout a) (WRITE_END_OF_PIPE B) STDOUT_FILENO s4) = Some (f2, s5)"
    using dup2_failed_returns [OF assms] by (cases f1) fastforce+
  obtain f3 s6 where 3: "(if f2 then Some (True, s5)
      else dup2_failed k (redirectStderr a) (WRITE_END_OF_PIPE C) STDERR_FILENO s5) = Some (f3, s6)"
    using dup2_failed_returns [OF assms] by (cases f2) fastforce+
  show ?thesis
    unfolding child_branch_def Let_def s3_def [symmetric] 1 using 2 3 child_launch_returns [OF assms]
    by (cases f3) auto
qed

lemma setup_event_prologue: "e \<in> set (prologue a A B C) \<Longrightarrow> setup_event e"
  by (auto simp: prologue_def)

lemma Pipe_None_prologue: "Pipe None \<notin> set (prologue a A B C)"
  by (auto simp: prologue_def)

lemma Fork_prologue: "Fork \<notin> set (prologue a A B C)"
  by (auto simp: prologue_def)

lemma created_prologue: "created (prologue a A B C) = held A @ held B @ held C"
  unfolding prologue_def using created_pipes [of A B C] by simp

lemma closed_prologue: "closed (prologue a A B C) = []"
  unfolding prologue_def by (simp add: closed_pipes)

lemma set_all_closes: "set (all_closes A B C) = Close ` {d \<in> {fst A, snd B, snd C, snd A, fst B, fst C}. 0 \<le> d}"
  by (auto simp: all_closes_def closes_def)

lemma created_all_closes: "created (all_closes A B C) = []"
  by (simp add: all_closes_def created_closes)

lemma closed_all_closes:
  "closed (all_closes A B C) = filter (\<lambda>d. 0 \<le> d) [fst A, snd B, snd C, snd A, fst B, fst C]"
  by (simp add: all_closes_def closed_closes)

lemma cleared_at:
  assumes "\<not> null_argument a"
  shows "cleared a m (the (stdinFd a)) = -1" "cleared a m (the (stdoutFd a)) = -1"
    "cleared a m (the (stderrFd a)) = -1" "cleared a m (the (childPid a)) = -1"
  by (simp_all add: cleared_def)


lemmas parent_run_defs = ForkAndExecProcess_def scripted_def request_def shell_def sys_access_def now_def
     open_pipes_def pipe_failed_def sys_pipe_def Let_def lowest_free_def no_pipe_def sys_fork_def
     parent_branch_def store_def done_label_def CloseIfOpen_def sys_close_def is_open_def release_def
     READ_END_OF_PIPE_def WRITE_END_OF_PIPE_def X_OK_def called_def failing_def

lemma run_second_pipe_refused:
  "ForkAndExecProcess True (scripted [(2, 24), (4, 5)] 4242) request shell =
     Some (Returned (-1), second_pipe_refused)"
  by (simp add: parent_run_defs second_pipe_refused_def)

lemma child_events_of_run:
  assumes "child_branch k a A B C s5 = Some (out, s')" "trace s5 = trace s @ pre"
  shows "\<exists>evs. new_events s s' = pre @ evs \<and> (\<forall>e \<in> set evs. \<not> setup_event e)
           \<and> created evs = []
           \<and> prefix (closed evs) (filter (\<lambda>d. 0 \<le> d) [snd A, fst B, fst C]
                                     @ filter (\<lambda>d. 0 \<le> d) [fst A, snd B, snd C])
           \<and> (out = Replaced \<or> (\<exists>st. out = Exited st))"
proof -
  from child_branch_runs [OF assms(1)] obtain n1 n2 n3 n4 n5 where
    r: "child_run k (concat (child_steps a A B C n1 n2 n3 n4 n5)) s5 out s'" by blast
  show ?thesis
  proof (rule child_run_events [OF r])
    fix evs
    assume e: "trace s' = trace s5 @ evs"
      "prefix (closed evs) (closed (concat (child_steps a A B C n1 n2 n3 n4 n5)))"
      "created (concat (child_steps a A B C n1 n2 n3 n4 n5)) = [] \<Longrightarrow> created evs = []"
      "\<And>e. e \<in> set evs \<Longrightarrow> e \<in> set (concat (child_steps a A B C n1 n2 n3 n4 n5)) \<or> (\<exists>st. e = Exit st)"
    have "new_events s s' = pre @ evs" using e(1) assms(2) by (simp add: new_events_def)
    moreover have "\<forall>x \<in> set evs. \<not> setup_event x"
      using e(4) setup_event_child_steps by fastforce
    moreover have "created evs = []" using e(3) created_child_steps by simp
    moreover note e(2) [unfolded closed_child_steps] child_run_outcome [OF r]
    ultimately show ?thesis by blast
  qed
qed

lemma rejected_run:
  assumes "null_argument a \<or> bad_redirect a"
  shows "ForkAndExecProcess nd k a s =
     (if nd then Some (done_label k a False no_pipe no_pipe no_pipe (s\<lparr>errno := EINVAL\<rparr>))
      else Some (Aborted, s))"
  using assms by (auto simp: ForkAndExecProcess_def null_argument_def bad_redirect_def)

lemma not_boolean: "(x::int32) \<notin> {0, 1} \<longleftrightarrow> (x AND NOT 1) \<noteq> 0"
  using bool_flag [of x] by auto

lemma run_rejected_request:
  "ForkAndExecProcess True (scripted [] 4242) (request\<lparr>redirectStdout := 2\<rparr>) shell
     = Some (Returned (-1), rejected_request)"
  by (simp add: parent_run_defs rejected_request_def EINVAL_def)

lemma run_asserting_build:
  "ForkAndExecProcess False (scripted [] 4242) (request\<lparr>filename := None\<rparr>) shell
     = Some (Aborted, shell)"
  by (simp add: parent_run_defs)

lemma run_stored_through_null:
  "ForkAndExecProcess True (scripted [] 4242) (request\<lparr>childPid := None\<rparr>) shell
     = Some (Faulted, stored_through_null)"
  by (simp add: parent_run_defs stored_through_null_def EINVAL_def)

lemma run_not_executable:
  "ForkAndExecProcess True (scripted [(0, 13)] 4242) request shell = Some (Returned (-1), not_executable)"
  by (simp add: parent_run_defs not_executable_def)

lemma valid_request: "\<not> null_argument request" "\<not> bad_redirect request"
  by (simp_all add: null_argument_def bad_redirect_def request_def)

lemma access_refused_run:
  assumes "\<not> null_argument a" "\<not> bad_redirect a" "fault k (now s) = Some e"
  shows "ForkAndExecProcess nd k a s =
     Some (done_label k a False no_pipe no_pipe no_pipe (failing e (accessed a s)))"
  using assms
  by (auto simp: ForkAndExecProcess_def null_argument_def bad_redirect_def sys_access_def accessed_def)

lemma first_event_is_access:
  assumes "ForkAndExecProcess nd k a s = Some (out, s')" "\<not> null_argument a" "\<not> bad_redirect a"
  shows "\<exists>rest. new_events s s' = Access (the (filename a)) X_OK # rest"
  using assms(1)
proof (cases rule: ForkAndExecProcess_runs)
  case (no_access e)
  then show ?thesis by (simp add: new_events_def)
next
  case (no_pipe A B C e)
  then show ?thesis by (simp add: new_events_def prologue_def)
next
  case (no_fork A B C e)
  then show ?thesis by (simp add: new_events_def prologue_def)
next
  case (child A B C s5)
  from child_events_of_run [OF child(8,7)] show ?thesis by (auto simp: prologue_def)
next
  case (parent A B C p1 p2 p3)
  then show ?thesis by (simp add: new_events_def prologue_def)
qed (use assms in simp_all)

lemma originating_errorI:
  assumes "\<not> null_argument a" "\<not> bad_redirect a"
    and "new_events s s' = pre @ e # map Close ds"
    and "e \<in> {Access (the (filename a)) X_OK, Pipe None, Fork}"
    and "setup_ok k s (length pre)"
    and "fault k (now s + length pre) = Some (errno s')"
  shows "(if null_argument a \<or> bad_redirect a
          then errno s' = EINVAL \<and> new_events s s' = []
          else \<exists>pre e ds. new_events s s' = pre @ e # map Close ds
                 \<and> e \<in> {Access (the (filename a)) X_OK, Pipe None, Fork}
                 \<and> setup_ok k s (length pre)
                 \<and> fault k (now s + length pre) = Some (errno s'))"
  using assms by (simp only: simp_thms if_False) blast

lemma run_spawned:
  "ForkAndExecProcess True (scripted [] 4242) request shell = Some (Returned 0, spawned)"
  by (simp add: parent_run_defs spawned_def)

lemma kept_lookup:
  assumes "fresh_pipes s A B C"
  shows "A \<noteq> no_pipe \<Longrightarrow>
           map_of (kept_out p3 C @ kept_out p2 B @ kept_in p1 A @ tab) (snd A) = Some (PipeEnd p1 WriteEnd)"
    and "B \<noteq> no_pipe \<Longrightarrow>
           map_of (kept_out p3 C @ kept_out p2 B @ kept_in p1 A @ tab) (fst B) = Some (PipeEnd p2 ReadEnd)"
    and "C \<noteq> no_pipe \<Longrightarrow>
           map_of (kept_out p3 C @ kept_out p2 B @ kept_in p1 A @ tab) (fst C) = Some (PipeEnd p3 ReadEnd)"
proof -
  note ap = fresh_pipes_apart [OF assms]
  show "A \<noteq> no_pipe \<Longrightarrow>
           map_of (kept_out p3 C @ kept_out p2 B @ kept_in p1 A @ tab) (snd A) = Some (PipeEnd p1 WriteEnd)"
    using ap(1) by (simp add: kept_out_def kept_in_def)
  show "B \<noteq> no_pipe \<Longrightarrow>
           map_of (kept_out p3 C @ kept_out p2 B @ kept_in p1 A @ tab) (fst B) = Some (PipeEnd p2 ReadEnd)"
    using ap(2) by (simp add: kept_out_def kept_in_def)
  show "C \<noteq> no_pipe \<Longrightarrow>
           map_of (kept_out p3 C @ kept_out p2 B @ kept_in p1 A @ tab) (fst C) = Some (PipeEnd p3 ReadEnd)"
    using ap(3) by (simp add: kept_out_def kept_in_def)
qed

lemma count_live:
  assumes "fresh_pipes s A B C" "flags_match a A B C"
  shows "length (filter (\<lambda>d. d \<noteq> -1) [snd A, fst B, fst C])
         = length (filter (\<lambda>f. f \<noteq> 0) [redirectStdin a, redirectStdout a, redirectStderr a])"
proof -
  note ap = fresh_pipes_apart [OF assms(1)]
  have "snd A \<noteq> -1 \<longleftrightarrow> redirectStdin a \<noteq> 0"
    using ap(1) ap(4) [of A] assms(2) by (cases "A = no_pipe") (auto simp: flags_match_def)
  moreover have "fst B \<noteq> -1 \<longleftrightarrow> redirectStdout a \<noteq> 0"
    using ap(2) ap(4) [of B] assms(2) by (cases "B = no_pipe") (auto simp: flags_match_def)
  moreover have "fst C \<noteq> -1 \<longleftrightarrow> redirectStderr a \<noteq> 0"
    using ap(3) ap(4) [of C] assms(2) by (cases "C = no_pipe") (auto simp: flags_match_def)
  ultimately show ?thesis by simp
qed

lemma Dup2WithInterruptedRetry_step:
  "\<not> CheckInterrupted (fst (sys_dup2 k oldfd newfd s)) (snd (sys_dup2 k oldfd newfd s)) \<Longrightarrow>
     Dup2WithInterruptedRetry k oldfd newfd s = Some (sys_dup2 k oldfd newfd s)"
  "CheckInterrupted (fst (sys_dup2 k oldfd newfd s)) (snd (sys_dup2 k oldfd newfd s)) \<Longrightarrow>
     Dup2WithInterruptedRetry k oldfd newfd s
       = Dup2WithInterruptedRetry k oldfd newfd (snd (sys_dup2 k oldfd newfd s))"
  by (subst Dup2WithInterruptedRetry.simps, simp add: case_prod_beta)+

lemma chdir_retry_step:
  "\<not> CheckInterrupted (fst (sys_chdir k dir s)) (snd (sys_chdir k dir s)) \<Longrightarrow>
     chdir_retry k dir s = Some (sys_chdir k dir s)"
  "CheckInterrupted (fst (sys_chdir k dir s)) (snd (sys_chdir k dir s)) \<Longrightarrow>
     chdir_retry k dir s = chdir_retry k dir (snd (sys_chdir k dir s))"
  by (subst chdir_retry.simps, simp add: case_prod_beta)+

lemma setsid_retry_step:
  "\<not> CheckInterrupted (fst (sys_setsid k s)) (snd (sys_setsid k s)) \<Longrightarrow>
     setsid_retry k s = Some (sys_setsid k s)"
  "CheckInterrupted (fst (sys_setsid k s)) (snd (sys_setsid k s)) \<Longrightarrow>
     setsid_retry k s = setsid_retry k (snd (sys_setsid k s))"
  by (subst setsid_retry.simps, simp add: case_prod_beta)+

lemmas child_run_defs = child_branch_def child_launch_def dup2_failed_def exit_errno_def
  sys_dup2_def sys_chdir_def sys_setsid_def sys_execve_def CheckInterrupted_def
  Dup2WithInterruptedRetry_step chdir_retry_step setsid_retry_step
  STDIN_FILENO_def STDOUT_FILENO_def STDERR_FILENO_def CREATE_NEW_PROCESS_SESSION_def
  EINTR_def EBADF_def EXIT_FAILURE_def

lemma run_launched:
  "ForkAndExecProcess True (scripted [(6, 4)] 0) request shell = Some (Replaced, launched)"
  by (simp add: parent_run_defs child_run_defs launched_def)

lemma run_no_such_directory:
  "ForkAndExecProcess True (scripted [(10, 4), (11, 2)] 0) request shell
     = Some (Exited 2, no_such_directory)"
  by (simp add: parent_run_defs child_run_defs no_such_directory_def)




lemma first_occurrence_unique:
  assumes "x \<notin> set xs" "x \<notin> set ys" "xs @ x # xs' = ys @ x # ys'"
  shows "xs = ys"
  using assms
proof (induction xs arbitrary: ys)
  case Nil
  then show ?case by (cases ys) auto
next
  case (Cons z zs)
  then show ?case by (cases ys) auto
qed

lemma forked_as_child_at:
  assumes "new_events s s' = pre @ Fork # post" "Fork \<notin> set pre"
  shows "forked_as_child k s s' \<longleftrightarrow>
           fault k (now s + length pre) = None \<and> fork_pid k (now s + length pre) = 0"
proof
  assume "forked_as_child k s s'"
  then obtain pre' post' where p: "new_events s s' = pre' @ Fork # post'" "Fork \<notin> set pre'"
    "fault k (now s + length pre') = None" "fork_pid k (now s + length pre') = 0"
    unfolding forked_as_child_def by blast
  from p(1) assms(1) have "pre' @ Fork # post' = pre @ Fork # post" by simp
  with p(2) assms(2) have "pre' = pre"
    by (rule first_occurrence_unique)
  with p(3,4) show "fault k (now s + length pre) = None \<and> fork_pid k (now s + length pre) = 0"
    by simp
next
  assume "fault k (now s + length pre) = None \<and> fork_pid k (now s + length pre) = 0"
  with assms show "forked_as_child k s s'" unfolding forked_as_child_def by blast
qed

lemma forked_as_child_Fork: "forked_as_child k s s' \<Longrightarrow> Fork \<in> set (new_events s s')"
  unfolding forked_as_child_def by auto

lemma Fork_all_closes: "Fork \<notin> set (all_closes A B C)"
  by (auto simp: all_closes_def closes_def)

lemma child_branch_outcome:
  assumes "child_branch k a A B C s = Some (out, s')"
  shows "out = Replaced \<or> (\<exists>st. out = Exited st)"
  using child_branch_runs [OF assms] child_run_outcome by blast

lemma child_of_run:
  assumes "ForkAndExecProcess nd k a s = Some (out, s')"
  shows "forked_as_child k s s' \<longleftrightarrow>
     (\<exists>A B C s5. fresh_pipes s A B C \<and> flags_match a A B C
        \<and> trace s5 = trace s @ prologue a A B C @ [Fork]
        \<and> child_branch k a A B C s5 = Some (out, s'))"
    (is "?l \<longleftrightarrow> ?r")
proof -
  have other: ?thesis if "\<not> ?l" "out = Aborted \<or> out = Faulted \<or> (\<exists>r. out = Returned r)"
  proof -
    have "\<not> ?r"
    proof
      assume ?r
      then obtain A B C s5 where "child_branch k a A B C s5 = Some (out, s')" by blast
      from child_branch_outcome [OF this] that(2) show False by auto
    qed
    with that(1) show ?thesis by blast
  qed
  from assms show ?thesis
  proof (cases rule: ForkAndExecProcess_runs)
    case aborted
    then have "Fork \<notin> set (new_events s s')" by (simp add: new_events_def)
    with aborted(3) show ?thesis using forked_as_child_Fork [of k s s'] by (intro other) auto
  next
    case rejected
    then have "Fork \<notin> set (new_events s s')" by (simp add: new_events_def)
    with rejected(5) show ?thesis using forked_as_child_Fork [of k s s']
      by (intro other) (auto split: if_splits)
  next
    case (no_access e)
    then have "Fork \<notin> set (new_events s s')" by (simp add: new_events_def)
    with no_access(4) show ?thesis using forked_as_child_Fork [of k s s'] by (intro other) auto
  next
    case (no_pipe A B C e)
    from no_pipe(10) have n: "new_events s s' = prologue a A B C @ [Pipe None] @ all_closes A B C"
      by (rule new_events_append)
    have "Fork \<notin> set (new_events s s')"
      unfolding n using Fork_prologue [of a A B C] Fork_all_closes [of A B C] by simp
    with no_pipe(6) show ?thesis using forked_as_child_Fork [of k s s'] by (intro other) auto
  next
    case (no_fork A B C e)
    from no_fork(11) have n: "new_events s s' = prologue a A B C @ Fork # all_closes A B C"
      using new_events_append [of s' s "prologue a A B C @ [Fork] @ all_closes A B C"] by simp
    have "\<not> forked_as_child k s s'"
      unfolding forked_as_child_at [OF n Fork_prologue] using no_fork(6) by simp
    with no_fork(7) show ?thesis by (intro other) auto
  next
    case (child A B C s5)
    from child_events_of_run [OF child(8), of s "prologue a A B C @ [Fork]"] child(7)
    obtain evs where "new_events s s' = (prologue a A B C @ [Fork]) @ evs" by auto
    then have n: "new_events s s' = prologue a A B C @ Fork # evs" by simp
    have "fault k (now s + length (prologue a A B C)) = None"
      using child(5) unfolding setup_ok_def by simp
    with child(6) have "forked_as_child k s s'"
      unfolding forked_as_child_at [OF n Fork_prologue] by simp
    moreover have ?r using child(3,4,7,8) by blast
    ultimately show ?thesis by blast
  next
    case (parent A B C p1 p2 p3)
    from parent(10) have n: "new_events s s' = prologue a A B C @ Fork # closes [fst A, snd B, snd C]"
      using new_events_append [of s' s "prologue a A B C @ [Fork] @ closes [fst A, snd B, snd C]"]
      by simp
    have "\<not> forked_as_child k s s'"
      unfolding forked_as_child_at [OF n Fork_prologue] using parent(6) by simp
    with parent(7) show ?thesis by (intro other) auto
  qed
qed

lemma ForkAndExecProcess_returns:
  assumes "interrupts_end k"
  shows "\<exists>r. ForkAndExecProcess nd k a s = Some r"
  unfolding ForkAndExecProcess_def using child_branch_returns [OF assms]
  by (auto split: prod.splits)

lemma interrupts_end_scripted: "interrupts_end (scripted faults pid)"
proof -
  have "fault (scripted faults pid) t \<noteq> Some EINTR" if "Suc (Max (insert 0 (fst ` set faults))) \<le> t" for t
  proof
    assume "fault (scripted faults pid) t = Some EINTR"
    then have "(t, EINTR) \<in> set faults" by (auto simp: scripted_def dest: map_of_SomeD)
    then have "t \<in> insert 0 (fst ` set faults)" by force
    then have "t \<le> Max (insert 0 (fst ` set faults))" by (intro Max_ge) auto
    with that show False by simp
  qed
  then show ?thesis unfolding interrupts_end_def by blast
qed

lemma forked_no_such_directory:
  "forked_as_child (scripted [(10, 4), (11, 2)] 0) shell no_such_directory"
  unfolding forked_as_child_def
  by (intro exI [of _ "[Access ''/bin/cat'' 1, Pipe (Some (3, 4)), Pipe (Some (5, 6))]"]
            exI [of _ "[Close 4, Close 5, Dup2 3 0, Dup2 6 1, Close 3, Close 6,
                        Chdir ''/tmp'', Chdir ''/tmp'', Exit 2]"])
     (simp add: new_events_def shell_def no_such_directory_def scripted_def now_def)

lemma child_steps_session:
  "\<exists>front. concat (child_steps a A B C n1 n2 n3 n4 n5)
       = front @ (if creationFlags a AND CREATE_NEW_PROCESS_SESSION \<noteq> 0
                  then replicate (Suc n5) Setsid else [])
           @ [Execve (the (filename a)) (the (argv a)) (the (envp a))]
     \<and> (\<forall>e \<in> set front. (fallible e \<longrightarrow> before_session e) \<and> e \<noteq> Setsid)"
proof -
  let ?front = "closes [snd A, fst B, fst C]
      @ (dups (redirectStdin a) (fst A) 0 n1 @ dups (redirectStdout a) (snd B) 1 n2
          @ dups (redirectStderr a) (snd C) 2 n3)
      @ closes [fst A, snd B, snd C]
      @ (case cwd a of None \<Rightarrow> [] | Some dir \<Rightarrow> replicate (Suc n4) (Chdir dir))"
  have "concat (child_steps a A B C n1 n2 n3 n4 n5)
       = ?front @ (if creationFlags a AND CREATE_NEW_PROCESS_SESSION \<noteq> 0
                  then replicate (Suc n5) Setsid else [])
           @ [Execve (the (filename a)) (the (argv a)) (the (envp a))]"
    unfolding child_steps_def by simp
  moreover have "\<forall>e \<in> set ?front. (fallible e \<longrightarrow> before_session e) \<and> e \<noteq> Setsid"
    unfolding set_append set_closes set_dups
    by (cases "cwd a") (auto split: if_splits)
  ultimately show ?thesis by blast
qed

lemma session_reached:
  assumes "prefix pre (front @ replicate (Suc n) Setsid @ [x])" "pre \<noteq> []"
    "\<forall>e \<in> set front. (fallible e \<longrightarrow> before_session e) \<and> e \<noteq> Setsid"
    "fallible (last pre)" "\<not> before_session x"
  shows "Setsid \<in> set pre \<longleftrightarrow> \<not> before_session (last pre)"
proof -
  from assms(1) consider (early) "prefix pre front"
    | (late) us where "pre = front @ us" "prefix us (replicate (Suc n) Setsid @ [x])" "us \<noteq> []"
    unfolding prefix_append by (cases "prefix pre front") auto
  then show ?thesis
  proof cases
    case early
    then have "set pre \<subseteq> set front" by (rule set_mono_prefix)
    moreover from assms(2) have "last pre \<in> set pre" by simp
    ultimately show ?thesis using assms(3,4) by blast
  next
    case late
    from late(2,3) have h: "hd us = Setsid"
      by (cases us) (auto simp: prefix_Cons)
    with late(3) have "Setsid \<in> set us" by (cases us) auto
    then have "Setsid \<in> set pre" using late(1) by simp
    moreover have "last pre = last us" using late(1,3) by simp
    moreover have "last us \<in> set us" using late(3) by simp
    moreover have "set us \<subseteq> {Setsid, x}"
      using set_mono_prefix [OF late(2)] by auto
    ultimately show ?thesis using assms(5) by auto
  qed
qed

lemma no_session:
  assumes "prefix pre (front @ [x])"
    "\<forall>e \<in> set front. (fallible e \<longrightarrow> before_session e) \<and> e \<noteq> Setsid" "x \<noteq> Setsid"
  shows "Setsid \<notin> set pre"
  using set_mono_prefix [OF assms(1)] assms(2,3) by auto

lemma session_of_child:
  assumes "child_branch k a A B C s5 = Some (out, s')"
    "trace s5 = trace s @ prologue a A B C @ [Fork]"
  shows "Setsid \<in> set (new_events s s') \<longleftrightarrow>
           creationFlags a AND CREATE_NEW_PROCESS_SESSION \<noteq> 0 \<and> \<not> died_before_session s s'"
proof -
  from child_branch_runs [OF assms(1)] obtain n1 n2 n3 n4 n5 where
    r: "child_run k (concat (child_steps a A B C n1 n2 n3 n4 n5)) s5 out s'" by blast
  let ?script = "concat (child_steps a A B C n1 n2 n3 n4 n5)"
  let ?x = "Execve (the (filename a)) (the (argv a)) (the (envp a))"
  from child_steps_session [of a A B C n1 n2 n3 n4 n5] obtain front where
    f: "?script = front @ (if creationFlags a AND CREATE_NEW_PROCESS_SESSION \<noteq> 0
                  then replicate (Suc n5) Setsid else []) @ [?x]"
       "\<forall>e \<in> set front. (fallible e \<longrightarrow> before_session e) \<and> e \<noteq> Setsid"
    by blast
  have pro: "Setsid \<notin> set (prologue a A B C)" using setup_event_prologue [of Setsid a A B C] by auto
  from r consider
    (completed) "trace s' = trace s5 @ ?script"
  | (exited) pre st where "trace s' = trace s5 @ pre @ [Exit st]" "prefix pre ?script"
      "pre \<noteq> []" "fallible (last pre)"
    unfolding child_run_def by blast
  then show ?thesis
  proof cases
    case completed
    then have n: "new_events s s' = prologue a A B C @ [Fork] @ ?script"
      using assms(2) by (simp add: new_events_def)
    have "\<not> died_before_session s s'"
    proof
      assume "died_before_session s s'"
      then obtain evs e st where "new_events s s' = evs @ [e, Exit st]"
        unfolding died_before_session_def by blast
      then have "last (new_events s s') = Exit st" by simp
      moreover have "last (new_events s s') = ?x" unfolding n f(1) by simp
      ultimately show False by simp
    qed
    moreover have "Setsid \<in> set (new_events s s') \<longleftrightarrow>
        creationFlags a AND CREATE_NEW_PROCESS_SESSION \<noteq> 0"
      unfolding n using pro Setsid_child_steps [of a A B C n1 n2 n3 n4 n5] by simp
    ultimately show ?thesis by simp
  next
    case exited
    then have n: "new_events s s' = (prologue a A B C @ [Fork] @ butlast pre) @ [last pre, Exit st]"
      using assms(2) by (simp add: new_events_def)
    have d: "died_before_session s s' \<longleftrightarrow> before_session (last pre)"
    proof
      assume "died_before_session s s'"
      then obtain evs e st' where e: "new_events s s' = evs @ [e, Exit st']" "before_session e"
        unfolding died_before_session_def by blast
      from e(1) n have "evs @ [e, Exit st'] = (prologue a A B C @ [Fork] @ butlast pre) @ [last pre, Exit st]"
        by simp
      then have "e = last pre" by simp
      with e(2) show "before_session (last pre)" by simp
    next
      assume "before_session (last pre)"
      with n show "died_before_session s s'" unfolding died_before_session_def by blast
    qed
    have m: "Setsid \<in> set (new_events s s') \<longleftrightarrow> Setsid \<in> set pre"
    proof -
      have "new_events s s' = prologue a A B C @ [Fork] @ pre @ [Exit st]"
        using exited(1) assms(2) by (simp add: new_events_def)
      then show ?thesis using pro by simp
    qed
    show ?thesis
    proof (cases "creationFlags a AND CREATE_NEW_PROCESS_SESSION \<noteq> 0")
      case True
      with f(1) exited(2) have "prefix pre (front @ replicate (Suc n5) Setsid @ [?x])" by simp
      from session_reached [OF this exited(3) f(2) exited(4)] True show ?thesis
        unfolding m d by simp
    next
      case False
      with f(1) exited(2) have "prefix pre (front @ [?x])" by simp
      from no_session [OF this f(2)] False show ?thesis unfolding m by simp
    qed
  qed
qed

lemma creationFlags_ignored:
  "open_pipes k (a\<lparr>creationFlags := c\<rparr>) s = open_pipes k a s"
  "done_label k (a\<lparr>creationFlags := c\<rparr>) ok A B C s = done_label k a ok A B C s"
  "parent_branch k (a\<lparr>creationFlags := c\<rparr>) pid A B C s = parent_branch k a pid A B C s"
  by (simp_all add: open_pipes_def done_label_def parent_branch_def Let_def
        cong: prod.case_cong option.case_cong if_cong)

lemma session_bit_only:
  assumes "c AND CREATE_NEW_PROCESS_SESSION = c' AND CREATE_NEW_PROCESS_SESSION"
  shows "child_branch k (a\<lparr>creationFlags := c\<rparr>) A B C s = child_branch k (a\<lparr>creationFlags := c'\<rparr>) A B C s"
  using assms
  by (simp add: child_branch_def child_launch_def Let_def
        cong: prod.case_cong option.case_cong if_cong sum.case_cong Option.bind_cong)

lemma ForkAndExecProcess_session_bit:
  assumes "c AND CREATE_NEW_PROCESS_SESSION = c' AND CREATE_NEW_PROCESS_SESSION"
  shows "ForkAndExecProcess nd k (a\<lparr>creationFlags := c\<rparr>) s
       = ForkAndExecProcess nd k (a\<lparr>creationFlags := c'\<rparr>) s"
  unfolding ForkAndExecProcess_def creationFlags_ignored session_bit_only [OF assms]
  by (simp cong: prod.case_cong option.case_cong if_cong)

lemma Setsid_of_run:
  assumes "ForkAndExecProcess nd k a s = Some (out, s')"
  shows "Setsid \<in> set (new_events s s') \<longleftrightarrow>
           creationFlags a AND CREATE_NEW_PROCESS_SESSION \<noteq> 0 \<and> forked_as_child k s s'
           \<and> \<not> died_before_session s s'"
proof (cases "forked_as_child k s s'")
  case True
  with child_of_run [OF assms] obtain A B C s5 where
    "trace s5 = trace s @ prologue a A B C @ [Fork]" "child_branch k a A B C s5 = Some (out, s')"
    by blast
  from session_of_child [OF this(2,1)] True show ?thesis by simp
next
  case False
  have "Setsid \<notin> set (new_events s s')"
    using assms
  proof (cases rule: ForkAndExecProcess_runs)
    case aborted
    then show ?thesis by (simp add: new_events_def)
  next
    case rejected
    then show ?thesis by (simp add: new_events_def)
  next
    case (no_access e)
    then show ?thesis by (simp add: new_events_def)
  next
    case (no_pipe A B C e)
    from no_pipe(10) have "new_events s s' = prologue a A B C @ [Pipe None] @ all_closes A B C"
      by (rule new_events_append)
    then show ?thesis using setup_event_prologue [of Setsid a A B C]
      by (auto simp: set_all_closes)
  next
    case (no_fork A B C e)
    from no_fork(11) have "new_events s s' = prologue a A B C @ [Fork] @ all_closes A B C"
      by (rule new_events_append)
    then show ?thesis using setup_event_prologue [of Setsid a A B C]
      by (auto simp: set_all_closes)
  next
    case (child A B C s5)
    with child_of_run [OF assms] False show ?thesis by blast
  next
    case (parent A B C p1 p2 p3)
    from parent(10) have "new_events s s' = prologue a A B C @ [Fork] @ closes [fst A, snd B, snd C]"
      by (rule new_events_append)
    then show ?thesis using setup_event_prologue [of Setsid a A B C]
      by (auto simp: set_closes)
  qed
  with False show ?thesis by simp
qed

lemma forked_launched: "forked_as_child (scripted [(6, 4)] 0) shell launched"
  unfolding forked_as_child_def
  by (intro exI [of _ "[Access ''/bin/cat'' 1, Pipe (Some (3, 4)), Pipe (Some (5, 6))]"]
            exI [of _ "drop 4 (trace launched)"])
     (simp add: new_events_def shell_def launched_def scripted_def now_def)

lemma requested_prologue:
  assumes "flags_match a A B C"
  shows "length (prologue a A B C) = Suc (requested a)"
  using assms unfolding length_prologue requested_def flags_match_def by auto






lemma interrupted_first:
  assumes "trace s1 = trace s @ [e]" "\<not> CheckInterrupted r s1" "r \<noteq> -1 \<longrightarrow> fault k (now s) = None"
    "r = -1 \<longrightarrow> fault k (now s) = Some (errno s1)
       \<or> (errno s1 = EBADF \<and> (\<exists>oldfd newfd. e = Dup2 oldfd newfd))"
  shows "repeated_while_interrupted k e s (r, s1)"
  unfolding repeated_while_interrupted_def using assms
  by (intro exI [of _ 0]) (simp add: CheckInterrupted_def)

lemma interrupted_again:
  assumes "trace s1 = trace s @ [e]" "fault k (now s) = Some EINTR"
    "repeated_while_interrupted k e s1 rs"
  shows "repeated_while_interrupted k e s rs"
proof -
  from assms(3) obtain n where
    t: "trace (snd rs) = trace s1 @ replicate (Suc n) e" and
    f: "\<forall>i<n. fault k (now s1 + i) = Some EINTR" and
    r: "\<not> (fst rs < 0 \<and> errno (snd rs) = EINTR)" and
    g: "fst rs \<noteq> -1 \<longrightarrow> fault k (now s1 + n) = None" and
    h: "fst rs = -1 \<longrightarrow> fault k (now s1 + n) = Some (errno (snd rs))
               \<or> (errno (snd rs) = EBADF \<and> (\<exists>oldfd newfd. e = Dup2 oldfd newfd))"
    unfolding repeated_while_interrupted_def by blast
  have n1: "now s1 = Suc (now s)" using assms(1) by (simp add: now_def)
  from t have "trace (snd rs) = trace s @ replicate (Suc (Suc n)) e"
    using assms(1) by (simp add: replicate_append_same)
  moreover have "\<forall>i<Suc n. fault k (now s + i) = Some EINTR"
  proof (intro allI impI)
    fix i assume "i < Suc n"
    show "fault k (now s + i) = Some EINTR"
    proof (cases i)
      case 0
      with assms(2) show ?thesis by simp
    next
      case (Suc j)
      with \<open>i < Suc n\<close> f have "fault k (now s1 + j) = Some EINTR" by simp
      with n1 Suc show ?thesis by simp
    qed
  qed
  moreover have "fst rs \<noteq> -1 \<longrightarrow> fault k (now s + Suc n) = None" using g n1 by simp
  moreover have "fst rs = -1 \<longrightarrow> fault k (now s + Suc n) = Some (errno (snd rs))
               \<or> (errno (snd rs) = EBADF \<and> (\<exists>oldfd newfd. e = Dup2 oldfd newfd))"
    using h n1 by simp
  ultimately show ?thesis using r unfolding repeated_while_interrupted_def
    by (intro exI [of _ "Suc n"]) simp
qed

lemma Dup2WithInterruptedRetry_interrupted:
  assumes "Dup2WithInterruptedRetry k oldfd newfd s = Some rs"
  shows "repeated_while_interrupted k (Dup2 oldfd newfd) s rs"
proof (rule Dup2WithInterruptedRetry.raw_induct
         [where P = "\<lambda>k oldfd newfd s rs. repeated_while_interrupted k (Dup2 oldfd newfd) s rs",
          OF _ assms], goal_cases)
  case (1 f k oldfd newfd s rs)
  obtain r s1 where d: "sys_dup2 k oldfd newfd s = (r, s1)" by (cases "sys_dup2 k oldfd newfd s")
  have t1: "trace s1 = trace s @ [Dup2 oldfd newfd]"
    using sys_dup2_frame [of k oldfd newfd s] d by simp
  show ?case
  proof (cases "CheckInterrupted r s1")
    case True
    with 1(2) d have "f k oldfd newfd s1 = Some rs" by simp
    moreover have "fault k (now s) = Some EINTR"
      using d True
      by (auto simp: sys_dup2_def CheckInterrupted_def failing_def called_def EBADF_def EINTR_def
               split: option.splits if_splits)
    ultimately show ?thesis using interrupted_again [OF t1 _ 1(1)] by blast
  next
    case False
    with 1(2) d have rs: "rs = (r, s1)" by simp
    have "r \<noteq> -1 \<longrightarrow> fault k (now s) = None"
      using d by (auto simp: sys_dup2_def split: option.splits if_splits)
    moreover have "r = -1 \<longrightarrow> fault k (now s) = Some (errno s1)
       \<or> (errno s1 = EBADF \<and> (\<exists>x y. Dup2 oldfd newfd = Dup2 x y))"
      using d by (auto simp: sys_dup2_def failing_def called_def split: option.splits if_splits)
    ultimately show ?thesis using interrupted_first [OF t1 False] rs by simp
  qed
qed

lemma chdir_retry_interrupted:
  assumes "chdir_retry k dir s = Some rs"
  shows "repeated_while_interrupted k (Chdir dir) s rs"
proof (rule chdir_retry.raw_induct
         [where P = "\<lambda>k dir s rs. repeated_while_interrupted k (Chdir dir) s rs", OF _ assms],
       goal_cases)
  case (1 f k dir s rs)
  obtain r s1 where d: "sys_chdir k dir s = (r, s1)" by (cases "sys_chdir k dir s")
  have t1: "trace s1 = trace s @ [Chdir dir]"
    using sys_chdir_frame [of k dir s] d by simp
  show ?case
  proof (cases "CheckInterrupted r s1")
    case True
    with 1(2) d have "f k dir s1 = Some rs" by simp
    moreover have "fault k (now s) = Some EINTR"
      using d True
      by (auto simp: sys_chdir_def CheckInterrupted_def failing_def called_def
               split: option.splits if_splits)
    ultimately show ?thesis using interrupted_again [OF t1 _ 1(1)] by blast
  next
    case False
    with 1(2) d have rs: "rs = (r, s1)" by simp
    have "r \<noteq> -1 \<longrightarrow> fault k (now s) = None"
      using d by (auto simp: sys_chdir_def split: option.splits if_splits)
    moreover have "r = -1 \<longrightarrow> fault k (now s) = Some (errno s1)"
      using d by (auto simp: sys_chdir_def failing_def called_def split: option.splits if_splits)
    ultimately show ?thesis using interrupted_first [OF t1 False] rs by simp
  qed
qed

lemma setsid_retry_interrupted:
  assumes "setsid_retry k s = Some rs"
  shows "repeated_while_interrupted k Setsid s rs"
proof (rule setsid_retry.raw_induct
         [where P = "\<lambda>k s rs. repeated_while_interrupted k Setsid s rs", OF _ assms],
       goal_cases)
  case (1 f k s rs)
  obtain r s1 where d: "sys_setsid k s = (r, s1)" by (cases "sys_setsid k s")
  have t1: "trace s1 = trace s @ [Setsid]"
    using sys_setsid_frame [of k s] d by simp
  show ?case
  proof (cases "CheckInterrupted r s1")
    case True
    with 1(2) d have "f k s1 = Some rs" by simp
    moreover have "fault k (now s) = Some EINTR"
      using d True
      by (auto simp: sys_setsid_def CheckInterrupted_def failing_def called_def
               split: option.splits if_splits)
    ultimately show ?thesis using interrupted_again [OF t1 _ 1(1)] by blast
  next
    case False
    with 1(2) d have rs: "rs = (r, s1)" by simp
    have "r \<noteq> -1 \<longrightarrow> fault k (now s) = None"
      using d by (auto simp: sys_setsid_def split: option.splits if_splits)
    moreover have "r = -1 \<longrightarrow> fault k (now s) = Some (errno s1)"
      using d by (auto simp: sys_setsid_def failing_def called_def split: option.splits if_splits)
    ultimately show ?thesis using interrupted_first [OF t1 False] rs by simp
  qed
qed

lemma went_on_left:
  assumes "went_on k t0 xs i" "i < length xs"
  shows "went_on k t0 (xs @ ys) i"
  using assms unfolding went_on_def by (auto simp: nth_append)

lemma went_on_right:
  assumes "went_on k (t0 + length xs) ys j"
  shows "went_on k t0 (xs @ ys) (length xs + j)"
  using assms unfolding went_on_def by (auto simp: nth_append add.assoc)

lemma went_on_append:
  assumes "\<forall>i<length xs. went_on k t0 xs i" "\<forall>j<m. went_on k (t0 + length xs) ys j"
  shows "\<forall>i<length xs + m. went_on k t0 (xs @ ys) i"
proof (intro allI impI)
  fix i assume i: "i < length xs + m"
  show "went_on k t0 (xs @ ys) i"
  proof (cases "i < length xs")
    case True
    with assms(1) show ?thesis by (simp add: went_on_left)
  next
    case False
    then obtain j where j: "i = length xs + j" using le_Suc_ex [of "length xs" i] by auto
    with i have "j < m" by simp
    with assms(2) have "went_on k (t0 + length xs) ys j" by simp
    from went_on_right [OF this] j show ?thesis by simp
  qed
qed

lemma smooth_refl: "smooth k s s"
  unfolding smooth_def by (intro exI [of _ "[]"]) simp

lemma smooth_trans:
  assumes "smooth k s s1" "smooth k s1 s2"
  shows "smooth k s s2"
proof -
  from assms(1) obtain xs where x: "trace s1 = trace s @ xs" "\<forall>i<length xs. went_on k (now s) xs i"
    unfolding smooth_def by blast
  from assms(2) obtain ys where y: "trace s2 = trace s1 @ ys" "\<forall>i<length ys. went_on k (now s1) ys i"
    unfolding smooth_def by blast
  have n: "now s1 = now s + length xs" using x(1) by (simp add: now_def)
  from went_on_append [OF x(2), of "length ys" ys] y(2) n
  have "\<forall>i<length (xs @ ys). went_on k (now s) (xs @ ys) i" by simp
  moreover have "trace s2 = trace s @ xs @ ys" using x(1) y(1) by simp
  ultimately show ?thesis unfolding smooth_def by blast
qed

lemma smooth_stopped:
  assumes "smooth k s s1" "stopped k s1 s2"
  shows "stopped k s s2"
proof -
  from assms(1) obtain xs where x: "trace s1 = trace s @ xs" "\<forall>i<length xs. went_on k (now s) xs i"
    unfolding smooth_def by blast
  from assms(2) obtain ys where y: "trace s2 = trace s1 @ ys" "ys \<noteq> []"
    "\<forall>i<length ys - 1. went_on k (now s1) ys i"
    "fault k (now s1 + (length ys - 1)) = Some (errno s2)
       \<or> (errno s2 = EBADF \<and> (\<exists>oldfd newfd. last ys = Dup2 oldfd newfd))"
    unfolding stopped_def by blast
  have n: "now s1 = now s + length xs" using x(1) by (simp add: now_def)
  from went_on_append [OF x(2), of "length ys - 1" ys] y(3) n
  have "\<forall>i<length xs + (length ys - 1). went_on k (now s) (xs @ ys) i" by simp
  moreover have "length xs + (length ys - 1) = length (xs @ ys) - 1" using y(2) by (cases ys) auto
  moreover have "trace s2 = trace s @ xs @ ys" using x(1) y(1) by simp
  moreover have "xs @ ys \<noteq> []" using y(2) by simp
  moreover have "fault k (now s + (length (xs @ ys) - 1)) = Some (errno s2)
       \<or> (errno s2 = EBADF \<and> (\<exists>oldfd newfd. last (xs @ ys) = Dup2 oldfd newfd))"
  proof -
    have "now s + (length (xs @ ys) - 1) = now s1 + (length ys - 1)"
      using n y(2) by (cases ys) auto
    with y(2,4) show ?thesis by simp
  qed
  ultimately have "trace s2 = trace s @ (xs @ ys) \<and> xs @ ys \<noteq> []
      \<and> (\<forall>i<length (xs @ ys) - 1. went_on k (now s) (xs @ ys) i)
      \<and> (fault k (now s + (length (xs @ ys) - 1)) = Some (errno s2)
       \<or> (errno s2 = EBADF \<and> (\<exists>oldfd newfd. last (xs @ ys) = Dup2 oldfd newfd)))"
    by simp
  then show ?thesis unfolding stopped_def by blast
qed

lemma smooth_infallible:
  assumes "trace s' = trace s @ evs" "\<forall>e \<in> set evs. \<not> fallible e"
  shows "smooth k s s'"
  unfolding smooth_def using assms by (intro exI [of _ evs]) (simp add: went_on_def)

lemma smooth_CloseIfOpen: "smooth k s (CloseIfOpen k d s)"
  by (rule smooth_infallible [of _ _ "if 0 \<le> d then [Close d] else []"])
     (simp_all add: trace_CloseIfOpen)

lemma smooth_then_close: "smooth k s s1 \<Longrightarrow> smooth k s (CloseIfOpen k d s1)"
  by (rule smooth_trans [OF _ smooth_CloseIfOpen])

lemma loop_went_on:
  assumes "repeated_while_interrupted k e s (r, s')" "retrying e"
  shows "r \<noteq> -1 \<longrightarrow> smooth k s s'" and "r = -1 \<longrightarrow> stopped k s s'"
proof -
  from assms(1) obtain n where
    t: "trace s' = trace s @ replicate (Suc n) e" and
    f: "\<forall>i<n. fault k (now s + i) = Some EINTR" and
    g: "r \<noteq> -1 \<longrightarrow> fault k (now s + n) = None" and
    h: "r = -1 \<longrightarrow> fault k (now s + n) = Some (errno s')
               \<or> (errno s' = EBADF \<and> (\<exists>oldfd newfd. e = Dup2 oldfd newfd))"
    unfolding repeated_while_interrupted_def by auto
  have w: "went_on k (now s) (replicate (Suc n) e) i" if "i < n" for i
    using that f assms(2) unfolding went_on_def by (simp add: nth_Cons')
  show "r = -1 \<longrightarrow> stopped k s s'"
  proof
    assume "r = -1"
    with h have "fault k (now s + n) = Some (errno s')
               \<or> (errno s' = EBADF \<and> (\<exists>oldfd newfd. e = Dup2 oldfd newfd))" by simp
    moreover have "last (replicate (Suc n) e) = e" by (simp del: replicate_Suc)
    moreover have "length (replicate (Suc n) e) - 1 = n" by simp
    moreover have "replicate (Suc n) e \<noteq> []" by simp
    ultimately have "trace s' = trace s @ replicate (Suc n) e \<and> replicate (Suc n) e \<noteq> []
        \<and> (\<forall>i<length (replicate (Suc n) e) - 1. went_on k (now s) (replicate (Suc n) e) i)
        \<and> (fault k (now s + (length (replicate (Suc n) e) - 1)) = Some (errno s')
             \<or> (errno s' = EBADF \<and> (\<exists>oldfd newfd. last (replicate (Suc n) e) = Dup2 oldfd newfd)))"
      using t w by presburger
    then show "stopped k s s'" unfolding stopped_def by blast
  qed
  show "r \<noteq> -1 \<longrightarrow> smooth k s s'"
  proof
    assume "r \<noteq> -1"
    with g have "went_on k (now s) (replicate (Suc n) e) n" unfolding went_on_def by simp
    with w have "\<forall>i<length (replicate (Suc n) e). went_on k (now s) (replicate (Suc n) e) i"
      by (auto simp: less_Suc_eq)
    with t show "smooth k s s'" unfolding smooth_def by blast
  qed
qed

lemma dup2_failed_went_on:
  assumes "dup2_failed k redirect oldfd newfd s = Some (f, s')"
  shows "if f then stopped k s s' else smooth k s s'"
proof (cases "redirect = 0")
  case True
  with assms show ?thesis by (auto simp: dup2_failed_def smooth_refl)
next
  case False
  with assms obtain r where d: "Dup2WithInterruptedRetry k oldfd newfd s = Some (r, s')"
    and f: "f = (r = -1)"
    by (auto simp: dup2_failed_def bind_eq_Some_conv)
  from loop_went_on [OF Dup2WithInterruptedRetry_interrupted [OF d]] f show ?thesis by simp
qed

lemma child_calls_exit:
  assumes "stopped k s s6" "exit_errno s6 = (out, s')"
  shows "child_calls k s out s'"
  using assms unfolding child_calls_def exit_errno_eq by (auto simp: called_def)

lemma child_calls_after:
  assumes "smooth k s s1" "child_calls k s1 out s'"
  shows "child_calls k s out s'"
  using assms smooth_trans [OF assms(1)] smooth_stopped [OF assms(1)]
  unfolding child_calls_def by blast

lemma execve_went_on:
  "case sys_execve k p av ev s of Inr s' \<Rightarrow> smooth k s s' | Inl s' \<Rightarrow> stopped k s s'"
proof (cases "fault k (now s)")
  case None
  then have "smooth k s (called (Execve p av ev) s)"
    unfolding smooth_def by (intro exI [of _ "[Execve p av ev]"]) (simp add: called_def went_on_def)
  with None show ?thesis by (simp add: sys_execve_def)
next
  case (Some e)
  have "stopped k s (failing e (called (Execve p av ev) s))"
    unfolding stopped_def using Some
    by (intro exI [of _ "[Execve p av ev]"]) (simp add: called_def failing_def)
  with Some show ?thesis by (simp add: sys_execve_def)
qed

lemma child_launch_calls:
  assumes "child_launch k a s9 = Some (out, s')"
  shows "child_calls k s9 out s'"
proof -
  let ?session = "\<lambda>r1 s10. (if r1 = -1 then Some (exit_errno s10)
       else do {
         (r2, s11) \<leftarrow> (if creationFlags a AND CREATE_NEW_PROCESS_SESSION \<noteq> 0
                        then setsid_retry k s10 else Some (0, s10));
         if r2 = -1 then Some (exit_errno s11)
         else
           (case sys_execve k (the (filename a)) (the (argv a)) (the (envp a)) s11 of
              Inr s12 \<Rightarrow> Some (Replaced, s12)
            | Inl s12 \<Rightarrow> Some (exit_errno s12))
       })"
  have "\<exists>r1 s10. (case cwd a of None \<Rightarrow> Some (0, s9) | Some dir \<Rightarrow> chdir_retry k dir s9)
            = Some (r1, s10) \<and> ?session r1 s10 = Some (out, s')"
  proof (cases "case cwd a of None \<Rightarrow> Some (0, s9) | Some dir \<Rightarrow> chdir_retry k dir s9")
    case None
    with assms show ?thesis unfolding child_launch_def by simp
  next
    case (Some rs)
    obtain r1 s10 where "rs = (r1, s10)" by (cases rs)
    with Some assms show ?thesis unfolding child_launch_def by simp
  qed
  then obtain r1 s10 where
    c: "(case cwd a of None \<Rightarrow> Some (0, s9) | Some dir \<Rightarrow> chdir_retry k dir s9) = Some (r1, s10)"
    and x: "?session r1 s10 = Some (out, s')"
    by blast
  have c1: "r1 \<noteq> -1 \<longrightarrow> smooth k s9 s10" and c2: "r1 = -1 \<longrightarrow> stopped k s9 s10"
  proof -
    show "r1 \<noteq> -1 \<longrightarrow> smooth k s9 s10"
    proof (cases "cwd a")
      case None
      with c show ?thesis by (auto simp: smooth_refl)
    next
      case (Some dir)
      with c have "chdir_retry k dir s9 = Some (r1, s10)" by simp
      from loop_went_on(1) [OF chdir_retry_interrupted [OF this]] show ?thesis by simp
    qed
    show "r1 = -1 \<longrightarrow> stopped k s9 s10"
    proof (cases "cwd a")
      case None
      with c show ?thesis by auto
    next
      case (Some dir)
      with c have "chdir_retry k dir s9 = Some (r1, s10)" by simp
      from loop_went_on(2) [OF chdir_retry_interrupted [OF this]] show ?thesis by simp
    qed
  qed
  show ?thesis
  proof (cases "r1 = -1")
    case True
    with x c2 show ?thesis by (auto intro: child_calls_exit)
  next
    case False
    let ?exec = "\<lambda>r2 s11. (if r2 = -1 then Some (exit_errno s11)
         else (case sys_execve k (the (filename a)) (the (argv a)) (the (envp a)) s11 of
              Inr s12 \<Rightarrow> Some (Replaced, s12)
            | Inl s12 \<Rightarrow> Some (exit_errno s12)))"
    have "\<exists>r2 s11. (if creationFlags a AND CREATE_NEW_PROCESS_SESSION \<noteq> 0
           then setsid_retry k s10 else Some (0, s10)) = Some (r2, s11)
          \<and> ?exec r2 s11 = Some (out, s')"
    proof (cases "if creationFlags a AND CREATE_NEW_PROCESS_SESSION \<noteq> 0
           then setsid_retry k s10 else Some (0, s10)")
      case None
      with x False show ?thesis by simp
    next
      case (Some rs)
      obtain r2 s11 where "rs = (r2, s11)" by (cases rs)
      with Some x False show ?thesis by simp
    qed
    then obtain r2 s11 where
      d: "(if creationFlags a AND CREATE_NEW_PROCESS_SESSION \<noteq> 0
           then setsid_retry k s10 else Some (0, s10)) = Some (r2, s11)"
      and y: "?exec r2 s11 = Some (out, s')"
      by blast
    have d1: "r2 \<noteq> -1 \<longrightarrow> smooth k s10 s11" and d2: "r2 = -1 \<longrightarrow> stopped k s10 s11"
    proof -
      show "r2 \<noteq> -1 \<longrightarrow> smooth k s10 s11"
      proof (cases "creationFlags a AND CREATE_NEW_PROCESS_SESSION \<noteq> 0")
        case False
        with d show ?thesis by (auto simp: smooth_refl)
      next
        case True
        with d have "setsid_retry k s10 = Some (r2, s11)" by simp
        from loop_went_on(1) [OF setsid_retry_interrupted [OF this]] show ?thesis by simp
      qed
      show "r2 = -1 \<longrightarrow> stopped k s10 s11"
      proof (cases "creationFlags a AND CREATE_NEW_PROCESS_SESSION \<noteq> 0")
        case False
        with d show ?thesis by auto
      next
        case True
        with d have "setsid_retry k s10 = Some (r2, s11)" by simp
        from loop_went_on(2) [OF setsid_retry_interrupted [OF this]] show ?thesis by simp
      qed
    qed
    from c1 False have s10: "smooth k s9 s10" by simp
    have "child_calls k s10 out s'"
    proof (cases "r2 = -1")
      case True
      with y d2 show ?thesis by (auto intro: child_calls_exit)
    next
      case r2: False
      with d1 have s11: "smooth k s10 s11" by simp
      note e = execve_went_on [where k = k and p = "the (filename a)" and av = "the (argv a)"
          and ev = "the (envp a)" and s = s11]
      have "child_calls k s11 out s'"
      proof (cases "sys_execve k (the (filename a)) (the (argv a)) (the (envp a)) s11")
        case (Inl s12)
        with y r2 e show ?thesis by (auto intro: child_calls_exit)
      next
        case (Inr s12)
        with y r2 e show ?thesis by (auto simp: child_calls_def)
      qed
      from child_calls_after [OF s11 this] show ?thesis .
    qed
    from child_calls_after [OF s10 this] show ?thesis .
  qed
qed

lemma child_branch_calls:
  assumes "child_branch k a A B C s = Some (out, s')"
  shows "child_calls k s out s'"
proof -
  define s3 where "s3 = CloseIfOpen k (fst C) (CloseIfOpen k (fst B) (CloseIfOpen k (snd A) s))"
  have g3: "smooth k s s3"
    unfolding s3_def by (intro smooth_then_close smooth_refl)
  from assms obtain f1 s4 f2 s5 f3 s6 where
    d1: "dup2_failed k (redirectStdin a) (fst A) 0 s3 = Some (f1, s4)" and
    d2: "(if f1 then Some (True, s4) else dup2_failed k (redirectStdout a) (snd B) 1 s4) = Some (f2, s5)" and
    d3: "(if f2 then Some (True, s5) else dup2_failed k (redirectStderr a) (snd C) 2 s5) = Some (f3, s6)" and
    x: "(if f3 then Some (exit_errno s6)
         else child_launch k a (CloseIfOpen k (snd C) (CloseIfOpen k (snd B) (CloseIfOpen k (fst A) s6))))
        = Some (out, s')"
    unfolding child_branch_def Let_def s3_def READ_END_OF_PIPE_def WRITE_END_OF_PIPE_def
      STDIN_FILENO_def STDOUT_FILENO_def STDERR_FILENO_def
    by (auto simp: bind_eq_Some_conv)
  note w1 = dup2_failed_went_on [OF d1]
  have w2: "if f2 then stopped k s3 s5 else smooth k s3 s5"
  proof (cases f1)
    case True
    with d2 w1 show ?thesis by auto
  next
    case False
    with d2 have "dup2_failed k (redirectStdout a) (snd B) 1 s4 = Some (f2, s5)" by simp
    from dup2_failed_went_on [OF this] w1 False show ?thesis
      by (auto intro: smooth_trans smooth_stopped)
  qed
  have w3: "if f3 then stopped k s3 s6 else smooth k s3 s6"
  proof (cases f2)
    case True
    with d3 w2 show ?thesis by auto
  next
    case False
    with d3 have "dup2_failed k (redirectStderr a) (snd C) 2 s5 = Some (f3, s6)" by simp
    from dup2_failed_went_on [OF this] w2 False show ?thesis
      by (auto intro: smooth_trans smooth_stopped)
  qed
  have "child_calls k s3 out s'"
  proof (cases f3)
    case True
    with x w3 show ?thesis by (auto intro: child_calls_exit)
  next
    case False
    define s9 where "s9 = CloseIfOpen k (snd C) (CloseIfOpen k (snd B) (CloseIfOpen k (fst A) s6))"
    have "smooth k s6 s9"
      unfolding s9_def by (intro smooth_then_close smooth_refl)
    with w3 False have g9: "smooth k s3 s9" by (auto intro: smooth_trans)
    from x False have "child_launch k a s9 = Some (out, s')" by (simp add: s9_def)
    from child_calls_after [OF g9 child_launch_calls [OF this]] show ?thesis .
  qed
  from child_calls_after [OF g3 this] show ?thesis .
qed

lemma earlier_calls_went_on:
  assumes "child_calls k s5 out s'"
  shows "\<forall>i<length (new_events s5 s').
           out = Replaced \<or> Suc (Suc i) < length (new_events s5 s')
             \<longrightarrow> went_on k (now s5) (new_events s5 s') i"
proof -
  from assms consider
    (completed) xs where "out = Replaced" "trace s' = trace s5 @ xs"
      "\<forall>i<length xs. went_on k (now s5) xs i"
  | (exited) st pre where "out = Exited st" "trace s' = trace s5 @ pre @ [Exit st]" "pre \<noteq> []"
      "\<forall>i<length pre - 1. went_on k (now s5) pre i"
    unfolding child_calls_def smooth_def stopped_def by auto
  then show ?thesis
  proof cases
    case completed
    from completed(2) have "new_events s5 s' = xs" by (rule new_events_append)
    with completed(3) show ?thesis by simp
  next
    case exited
    from exited(2) have n: "new_events s5 s' = pre @ [Exit st]" by (rule new_events_append)
    show ?thesis unfolding n
    proof (intro allI impI)
      fix i assume "i < length (pre @ [Exit st])"
        and "out = Replaced \<or> Suc (Suc i) < length (pre @ [Exit st])"
      with exited(1) have i: "i < length pre - 1" by auto
      with exited(4) have "went_on k (now s5) pre i" by simp
      from went_on_left [OF this] i show "went_on k (now s5) (pre @ [Exit st]) i" by simp
    qed
  qed
qed

lemma failed_call_exits:
  assumes c: "child_calls k s5 out s'"
    and i: "i < length (new_events s5 s')" "fallible (new_events s5 s' ! i)"
    and f: "fault k (now s5 + i) = Some e" "\<not> (retrying (new_events s5 s' ! i) \<and> e = EINTR)"
  shows "out = Exited (if e \<noteq> 0 then e else EXIT_FAILURE)
         \<or> (out = Exited EBADF \<and> (\<exists>oldfd newfd. new_events s5 s' ! i = Dup2 oldfd newfd))"
    and "\<exists>st. out = Exited st \<and> new_events s5 s' = take (Suc i) (new_events s5 s') @ [Exit st]"
proof -
  let ?evs = "new_events s5 s'"
  have "\<not> went_on k (now s5) ?evs i" using i(2) f unfolding went_on_def by auto
  with earlier_calls_went_on [OF c] i(1)
  have nr: "out \<noteq> Replaced" and last: "\<not> Suc (Suc i) < length ?evs" by auto
  from c nr obtain st s6 where
    x: "out = Exited st" "stopped k s5 s6" "trace s' = trace s6 @ [Exit st]" "errno s' = errno s6"
       "st = (if errno s6 \<noteq> 0 then errno s6 else EXIT_FAILURE)"
    unfolding child_calls_def by blast
  from x(2) obtain pre where
    y: "trace s6 = trace s5 @ pre" "pre \<noteq> []"
       "fault k (now s5 + (length pre - 1)) = Some (errno s6)
          \<or> (errno s6 = EBADF \<and> (\<exists>oldfd newfd. last pre = Dup2 oldfd newfd))"
    unfolding stopped_def by blast
  note e = x(1) y(1,2) x(3,4,5) y(3)
  from e(2,4) have "trace s' = trace s5 @ pre @ [Exit st]" by simp
  then have n: "?evs = pre @ [Exit st]" by (rule new_events_append)
  have "i \<noteq> length pre" using i(2) unfolding n by auto
  with last i(1) e(3) have il: "Suc i = length pre" unfolding n by auto
  then show "\<exists>st. out = Exited st \<and> ?evs = take (Suc i) ?evs @ [Exit st]"
    using e(1) unfolding n by simp
  from il have li: "length pre - Suc 0 = i" by simp
  have "?evs ! i = last pre"
    unfolding n using li il e(3) by (simp add: nth_append last_conv_nth)
  with e(7) f(1) have "errno s6 = e \<or> (errno s6 = EBADF \<and> (\<exists>oldfd newfd. ?evs ! i = Dup2 oldfd newfd))"
    using li by auto
  with e(1,6) show "out = Exited (if e \<noteq> 0 then e else EXIT_FAILURE)
         \<or> (out = Exited EBADF \<and> (\<exists>oldfd newfd. ?evs ! i = Dup2 oldfd newfd))"
    by (auto simp: EBADF_def)
qed




section \<open>The claims\<close>

text \<open>
  C1. Take a call that returns 0, with three different addresses for the three stream out
  parameters. There are three arrays \<open>A\<close>, \<open>B\<close>, \<open>C\<close> (stdin, stdout, stderr), each still
  \<open>{-1, -1}\<close> exactly when its flag is 0 and otherwise the two fresh descriptors of a pipe the
  call created, such that: \<^verbatim>\<open>*stdinFd\<close> is the write end \<open>A[1]\<close>, \<^verbatim>\<open>*stdoutFd\<close> and
  \<^verbatim>\<open>*stderrFd\<close> are the read ends \<open>B[0]\<close> and \<open>C[0]\<close>; a stream whose flag is set gets a
  descriptor that the table maps to that end of a pipe, a stream whose flag is 0 gets \<open>-1\<close>;
  the descriptors that are not \<open>-1\<close> are as many as the flags set; the descriptors the call
  closed are the three child-side ends \<open>A[0]\<close>, \<open>B[1]\<close>, \<open>C[1]\<close> (those that exist); and the
  descriptor table at the return is the table before the call with the parent-side ends
  added, nothing else.
\<close>

theorem parent_keeps_exactly_its_pipe_ends:
  assumes "ForkAndExecProcess nd k a s = Some (Returned 0, s')"
    and "distinct [stdinFd a, stdoutFd a, stderrFd a]"
  shows "\<exists>A B C p1 p2 p3.
      flags_match a A B C \<and> fresh_pipes s A B C
    \<and> created (new_events s s') = held A @ held B @ held C
    \<and> mem s' (the (stdinFd a)) = snd A \<and> mem s' (the (stdoutFd a)) = fst B
    \<and> mem s' (the (stderrFd a)) = fst C
    \<and> (if redirectStdin a \<noteq> 0
        then map_of (fdtab s') (mem s' (the (stdinFd a))) = Some (PipeEnd p1 WriteEnd)
        else mem s' (the (stdinFd a)) = -1)
    \<and> (if redirectStdout a \<noteq> 0
        then map_of (fdtab s') (mem s' (the (stdoutFd a))) = Some (PipeEnd p2 ReadEnd)
        else mem s' (the (stdoutFd a)) = -1)
    \<and> (if redirectStderr a \<noteq> 0
        then map_of (fdtab s') (mem s' (the (stderrFd a))) = Some (PipeEnd p3 ReadEnd)
        else mem s' (the (stderrFd a)) = -1)
    \<and> length (filter (\<lambda>d. d \<noteq> -1)
         [mem s' (the (stdinFd a)), mem s' (the (stdoutFd a)), mem s' (the (stderrFd a))])
       = length (filter (\<lambda>f. f \<noteq> 0) [redirectStdin a, redirectStdout a, redirectStderr a])
    \<and> closed (new_events s s') = filter (\<lambda>d. 0 \<le> d) [fst A, snd B, snd C]
    \<and> fdtab s' = kept_out p3 C @ kept_out p2 B @ kept_in p1 A @ fdtab s"
  using assms(1)
proof (cases rule: ForkAndExecProcess_runs)
  case rejected
  then show ?thesis by (simp split: if_splits)
next
  case (child A B C s5)
  from child_events_of_run [OF child(8,7)] show ?thesis by auto
next
  case (parent A B C p1 p2 p3)
  from parent(1) obtain q1 q2 q3 q4 where
    p: "stdinFd a = Some q1" "stdoutFd a = Some q2" "stderrFd a = Some q3" "childPid a = Some q4"
    by (auto simp: null_argument_def)
  with assms(2) have d: "q1 \<noteq> q2" "q1 \<noteq> q3" "q2 \<noteq> q3" by auto
  have m: "mem s' (the (stdinFd a)) = snd A" "mem s' (the (stdoutFd a)) = fst B"
    "mem s' (the (stderrFd a)) = fst C"
    unfolding parent(9) using p d by simp_all
  note ap = fresh_pipes_apart [OF parent(3)]
  note kl = kept_lookup [OF parent(3), of p3 p2 p1 "fdtab s"]
  have n: "new_events s s' = prologue a A B C @ [Fork] @ closes [fst A, snd B, snd C]"
    using parent(10) by (rule new_events_append)
  have c: "created (new_events s s') = held A @ held B @ held C"
    unfolding n by (simp add: created_append created_prologue created_closes)
  have cl: "closed (new_events s s') = filter (\<lambda>d. 0 \<le> d) [fst A, snd B, snd C]"
    unfolding n by (simp add: closed_append closed_prologue closed_closes)
  have 1: "(if redirectStdin a \<noteq> 0
        then map_of (fdtab s') (mem s' (the (stdinFd a))) = Some (PipeEnd p1 WriteEnd)
        else mem s' (the (stdinFd a)) = -1)"
  proof (cases "A = no_pipe")
    case True
    with parent(4) have "redirectStdin a = 0" by (simp add: flags_match_def)
    with ap(4) [OF True] show ?thesis unfolding m by simp
  next
    case False
    with parent(4) have "redirectStdin a \<noteq> 0" by (simp add: flags_match_def)
    with kl(1) [OF False] show ?thesis unfolding m parent(8) by simp
  qed
  have 2: "(if redirectStdout a \<noteq> 0
        then map_of (fdtab s') (mem s' (the (stdoutFd a))) = Some (PipeEnd p2 ReadEnd)
        else mem s' (the (stdoutFd a)) = -1)"
  proof (cases "B = no_pipe")
    case True
    with parent(4) have "redirectStdout a = 0" by (simp add: flags_match_def)
    with ap(4) [OF True] show ?thesis unfolding m by simp
  next
    case False
    with parent(4) have "redirectStdout a \<noteq> 0" by (simp add: flags_match_def)
    with kl(2) [OF False] show ?thesis unfolding m parent(8) by simp
  qed
  have 3: "(if redirectStderr a \<noteq> 0
        then map_of (fdtab s') (mem s' (the (stderrFd a))) = Some (PipeEnd p3 ReadEnd)
        else mem s' (the (stderrFd a)) = -1)"
  proof (cases "C = no_pipe")
    case True
    with parent(4) have "redirectStderr a = 0" by (simp add: flags_match_def)
    with ap(4) [OF True] show ?thesis unfolding m by simp
  next
    case False
    with parent(4) have "redirectStderr a \<noteq> 0" by (simp add: flags_match_def)
    with kl(3) [OF False] show ?thesis unfolding m parent(8) by simp
  qed
  have 4: "length (filter (\<lambda>d. d \<noteq> -1)
         [mem s' (the (stdinFd a)), mem s' (the (stdoutFd a)), mem s' (the (stderrFd a))])
       = length (filter (\<lambda>f. f \<noteq> 0) [redirectStdin a, redirectStdout a, redirectStderr a])"
    unfolding m by (rule count_live [OF parent(3,4)])
  from parent(3,4,8) m c cl 1 2 3 4 show ?thesis by blast
qed simp_all

theorem parent_keeps_exactly_its_pipe_ends_witness:
  "ForkAndExecProcess True (scripted [] 4242) request shell = Some (Returned 0, spawned)
   \<and> distinct [stdinFd request, stdoutFd request, stderrFd request]
   \<and> map (mem spawned) [11, 12, 13] = [4, 5, -1]
   \<and> map redirectStdin [request] @ map redirectStdout [request] @ map redirectStderr [request] = [1, 1, 0]
   \<and> closed (new_events shell spawned) = [3, 6]
   \<and> fdtab spawned = [(5, PipeEnd 2 ReadEnd), (4, PipeEnd 1 WriteEnd)] @ fdtab shell"
proof -
  have d: "distinct [stdinFd request, stdoutFd request, stderrFd request]"
    by (simp add: request_def)
  from parent_keeps_exactly_its_pipe_ends [OF run_spawned d] obtain A B C where
    "mem spawned (the (stdinFd request)) = snd A" "mem spawned (the (stdoutFd request)) = fst B"
    "mem spawned (the (stderrFd request)) = fst C"
    "closed (new_events shell spawned) = filter (\<lambda>d. 0 \<le> d) [fst A, snd B, snd C]"
    "created (new_events shell spawned) = held A @ held B @ held C"
    by blast
  then have "closed (new_events shell spawned) = [3, 6]"
    by (simp add: new_events_def shell_def spawned_def)
  with run_spawned d show ?thesis
    by (simp add: spawned_def shell_def request_def)
qed




text \<open>
  C3. When a \<^verbatim>\<open>pipe\<close> call of the run fails, the run returns \<open>-1\<close> without forking; the
  descriptor table is what it was before the call, so the ends of the pipes opened before
  the failing one are closed too; the four out parameters hold \<open>-1\<close>; and \<^verbatim>\<open>errno\<close> at the
  return is the error of the failed \<^verbatim>\<open>pipe\<close> call.
\<close>

theorem pipe_failure_releases_earlier_pipes:
  assumes "ForkAndExecProcess nd k a s = Some (out, s')"
    and "Pipe None \<in> set (new_events s s')"
  shows "out = Returned (-1) \<and> fdtab s' = fdtab s
       \<and> set (created (new_events s s')) \<subseteq> set (closed (new_events s s'))
       \<and> Fork \<notin> set (new_events s s')
       \<and> mem s' (the (childPid a)) = -1 \<and> mem s' (the (stdinFd a)) = -1
       \<and> mem s' (the (stdoutFd a)) = -1 \<and> mem s' (the (stderrFd a)) = -1
       \<and> (\<exists>i. i < length (trace s') \<and> trace s' ! i = Pipe None \<and> fault k i = Some (errno s'))"
  using assms(1)
proof (cases rule: ForkAndExecProcess_runs)
  case aborted
  with assms(2) show ?thesis by (simp add: new_events_def)
next
  case rejected
  with assms(2) show ?thesis by (simp add: new_events_def)
next
  case (no_access e)
  with assms(2) show ?thesis by (simp add: new_events_def)
next
  case (no_pipe A B C e)
  from no_pipe(10) have n: "new_events s s' = prologue a A B C @ [Pipe None] @ all_closes A B C"
    by (rule new_events_append)
  have "set (created (new_events s s')) \<subseteq> set (closed (new_events s s'))"
    unfolding n using closed_all(1) [OF no_pipe(3)]
    by (simp add: created_append closed_append created_prologue closed_prologue created_all_closes
        closed_all_closes)
  moreover have "Fork \<notin> set (new_events s s')"
    unfolding n using Fork_prologue [of a A B C] by (auto simp: set_all_closes)
  moreover have "trace s' ! (now s + length (prologue a A B C)) = Pipe None"
    unfolding no_pipe(10) now_def by (simp add: nth_append)
  moreover have "now s + length (prologue a A B C) < length (trace s')"
    unfolding no_pipe(10) now_def by simp
  ultimately show ?thesis
    using no_pipe(1,5-9) by (auto simp: cleared_at)
next
  case (no_fork A B C e)
  from no_fork(11) have "new_events s s' = prologue a A B C @ [Fork] @ all_closes A B C"
    by (rule new_events_append)
  with assms(2) Pipe_None_prologue [of a A B C] show ?thesis
    by (auto simp: set_all_closes)
next
  case (child A B C s5)
  from child_events_of_run [OF child(8,7)] obtain evs where
    "new_events s s' = (prologue a A B C @ [Fork]) @ evs" "\<forall>e \<in> set evs. \<not> setup_event e"
    by blast
  with assms(2) Pipe_None_prologue [of a A B C] show ?thesis by auto
next
  case (parent A B C p1 p2 p3)
  from parent(10) have "new_events s s' = prologue a A B C @ [Fork] @ closes [fst A, snd B, snd C]"
    by (rule new_events_append)
  with assms(2) Pipe_None_prologue [of a A B C] show ?thesis
    by (auto simp: set_closes)
qed

theorem pipe_failure_releases_earlier_pipes_witness:
  "ForkAndExecProcess True (scripted [(2, 24), (4, 5)] 4242) request shell
     = Some (Returned (-1), second_pipe_refused)
   \<and> Pipe None \<in> set (new_events shell second_pipe_refused)
   \<and> Pipe (Some (3, 4)) \<in> set (new_events shell second_pipe_refused)
   \<and> fdtab second_pipe_refused = fdtab shell
   \<and> Fork \<notin> set (new_events shell second_pipe_refused)
   \<and> errno second_pipe_refused = 24"
proof -
  have h: "Pipe None \<in> set (new_events shell second_pipe_refused)"
    by (simp add: new_events_def shell_def second_pipe_refused_def)
  from pipe_failure_releases_earlier_pipes [OF run_second_pipe_refused h]
  have "fdtab second_pipe_refused = fdtab shell \<and> Fork \<notin> set (new_events shell second_pipe_refused)"
    by simp
  with run_second_pipe_refused h show ?thesis
    by (simp add: new_events_def shell_def second_pipe_refused_def)
qed

text \<open>
  C4, as amended. When the executable path, the argument vector or the environment is null,
  or a redirection flag is neither 0 nor 1, the call makes no system call at all: no pipe
  is created, no process is forked, the descriptor table is untouched. In a build that
  defines \<^verbatim>\<open>NDEBUG\<close>, when the four out pointers are not null, it returns \<open>-1\<close> with
  \<^verbatim>\<open>errno = EINVAL\<close> and \<open>-1\<close> in the four out parameters. In a build that does not, the
  \<^verbatim>\<open>assert\<close> aborts the process.
\<close>

theorem invalid_argument_makes_no_system_call:
  assumes "filename a = None \<or> argv a = None \<or> envp a = None \<or> redirectStdin a \<notin> {0, 1}
           \<or> redirectStdout a \<notin> {0, 1} \<or> redirectStderr a \<notin> {0, 1}"
  shows "\<exists>out s'. ForkAndExecProcess nd k a s = Some (out, s')
           \<and> new_events s s' = [] \<and> fdtab s' = fdtab s
           \<and> (\<not> nd \<longrightarrow> out = Aborted \<and> s' = s)
           \<and> (nd \<and> childPid a \<noteq> None \<and> stdinFd a \<noteq> None \<and> stdoutFd a \<noteq> None \<and> stderrFd a \<noteq> None
                \<longrightarrow> out = Returned (-1) \<and> errno s' = EINVAL
                    \<and> mem s' (the (childPid a)) = -1 \<and> mem s' (the (stdinFd a)) = -1
                    \<and> mem s' (the (stdoutFd a)) = -1 \<and> mem s' (the (stderrFd a)) = -1)"
proof -
  from assms have inv: "null_argument a \<or> bad_redirect a"
    unfolding null_argument_def bad_redirect_def not_boolean by blast
  from rejected_run [OF inv, of nd k s] obtain out s' where
    r: "ForkAndExecProcess nd k a s = Some (out, s')"
    by (cases nd; cases "done_label k a False no_pipe no_pipe no_pipe (s\<lparr>errno := EINVAL\<rparr>)") auto
  from r show ?thesis
  proof (cases rule: ForkAndExecProcess_runs)
    case aborted
    with r show ?thesis by (simp add: new_events_def)
  next
    case rejected
    have "new_events s s' = []" using rejected(3) by (simp add: new_events_def)
    moreover have "out = Returned (-1) \<and> errno s' = EINVAL
                    \<and> mem s' (the (childPid a)) = -1 \<and> mem s' (the (stdinFd a)) = -1
                    \<and> mem s' (the (stdoutFd a)) = -1 \<and> mem s' (the (stderrFd a)) = -1"
      if "childPid a \<noteq> None \<and> stdinFd a \<noteq> None \<and> stdoutFd a \<noteq> None \<and> stderrFd a \<noteq> None"
    proof -
      from that rejected(5) have o: "out = Returned (-1)" by simp
      from rejected(6) [OF o] o show ?thesis by (simp add: cleared_def)
    qed
    ultimately show ?thesis using r rejected(2,4) by blast
  qed (use inv in simp_all)
qed

theorem invalid_argument_makes_no_system_call_witness:
  "redirectStdout (request\<lparr>redirectStdout := 2\<rparr>) \<notin> {0, 1}
   \<and> ForkAndExecProcess True (scripted [] 4242) (request\<lparr>redirectStdout := 2\<rparr>) shell
       = Some (Returned (-1), rejected_request)
   \<and> new_events shell rejected_request = [] \<and> fdtab rejected_request = fdtab shell
   \<and> errno rejected_request = EINVAL"
proof -
  have h: "redirectStdout (request\<lparr>redirectStdout := 2\<rparr>) \<notin> {0, 1}" by simp
  then have "filename (request\<lparr>redirectStdout := 2\<rparr>) = None \<or> argv (request\<lparr>redirectStdout := 2\<rparr>) = None
      \<or> envp (request\<lparr>redirectStdout := 2\<rparr>) = None \<or> redirectStdin (request\<lparr>redirectStdout := 2\<rparr>) \<notin> {0, 1}
      \<or> redirectStdout (request\<lparr>redirectStdout := 2\<rparr>) \<notin> {0, 1}
      \<or> redirectStderr (request\<lparr>redirectStdout := 2\<rparr>) \<notin> {0, 1}"
    by blast
  from invalid_argument_makes_no_system_call [OF this, of True "scripted [] 4242" shell]
  have "new_events shell rejected_request = [] \<and> fdtab rejected_request = fdtab shell
      \<and> errno rejected_request = EINVAL"
    unfolding run_rejected_request by (simp add: request_def)
  with h run_rejected_request show ?thesis by blast
qed

theorem invalid_argument_aborts_when_asserts_are_on:
  "filename (request\<lparr>filename := None\<rparr>) = None
   \<and> ForkAndExecProcess False (scripted [] 4242) (request\<lparr>filename := None\<rparr>) shell
       = Some (Aborted, shell)
   \<and> errno shell \<noteq> EINVAL
   \<and> \<not> (\<exists>s'. ForkAndExecProcess False (scripted [] 4242) (request\<lparr>filename := None\<rparr>) shell
                = Some (Returned (-1), s') \<and> errno s' = EINVAL)"
  by (simp add: run_asserting_build) (simp add: shell_def EINVAL_def)

text \<open>
  C5. With arguments that pass the validation, \<^verbatim>\<open>access(filename, X_OK)\<close> is the first system
  call of every run, so it comes before any \<^verbatim>\<open>fork\<close>. When it fails with \<open>e\<close>, the call
  returns \<open>-1\<close> with \<^verbatim>\<open>errno = e\<close>, and \<^verbatim>\<open>access\<close> is the only system call made: no pipe, no
  child.
\<close>

theorem access_is_checked_before_anything_else:
  assumes "\<not> null_argument a" and "\<not> bad_redirect a"
  shows "(\<forall>out s'. ForkAndExecProcess nd k a s = Some (out, s')
            \<longrightarrow> (\<exists>rest. new_events s s' = Access (the (filename a)) X_OK # rest))
       \<and> (\<forall>e. fault k (now s) = Some e
            \<longrightarrow> (\<exists>s'. ForkAndExecProcess nd k a s = Some (Returned (-1), s') \<and> errno s' = e
                     \<and> new_events s s' = [Access (the (filename a)) X_OK]
                     \<and> fdtab s' = fdtab s \<and> mem s' = cleared a (mem s)))"
proof (intro conjI allI impI)
  fix out s'
  assume "ForkAndExecProcess nd k a s = Some (out, s')"
  from first_event_is_access [OF this assms]
  show "\<exists>rest. new_events s s' = Access (the (filename a)) X_OK # rest" .
next
  fix e
  assume f: "fault k (now s) = Some e"
  let ?r = "done_label k a False no_pipe no_pipe no_pipe (failing e (accessed a s))"
  have r: "ForkAndExecProcess nd k a s = Some (fst ?r, snd ?r)"
    using access_refused_run [OF assms f] by simp
  from r show "\<exists>s'. ForkAndExecProcess nd k a s = Some (Returned (-1), s') \<and> errno s' = e
                     \<and> new_events s s' = [Access (the (filename a)) X_OK]
                     \<and> fdtab s' = fdtab s \<and> mem s' = cleared a (mem s)"
  proof (cases rule: ForkAndExecProcess_runs)
    case (no_access e')
    with f r show ?thesis by (simp add: new_events_def)
  qed (use assms f in \<open>simp_all add: setup_ok_def length_prologue\<close>)
qed

theorem access_is_checked_before_anything_else_witness:
  "\<not> null_argument request \<and> \<not> bad_redirect request
   \<and> fault (scripted [(0, 13)] 4242) (now shell) = Some 13
   \<and> ForkAndExecProcess True (scripted [(0, 13)] 4242) request shell = Some (Returned (-1), not_executable)
   \<and> new_events shell not_executable = [Access ''/bin/cat'' X_OK]
   \<and> errno not_executable = 13"
proof -
  have f: "fault (scripted [(0, 13)] 4242) (now shell) = Some 13"
    by (simp add: scripted_def now_def shell_def)
  from access_is_checked_before_anything_else [OF valid_request, of True "scripted [(0, 13)] 4242" shell] f
  have "new_events shell not_executable = [Access (the (filename request)) X_OK]
      \<and> errno not_executable = 13"
    unfolding run_not_executable by simp
  with f run_not_executable valid_request show ?thesis by (simp add: request_def)
qed

text \<open>
  C6. When a call comes back with a failure, \<^verbatim>\<open>errno\<close> at the return is \<^verbatim>\<open>EINVAL\<close> and no
  system call was made, or it is the error of the first system call of the run that failed:
  that call is \<^verbatim>\<open>access\<close>, \<^verbatim>\<open>pipe\<close> or \<^verbatim>\<open>fork\<close>, every call before it succeeded, and every
  call after it is a \<^verbatim>\<open>close\<close> of the cleanup. The kernel is arbitrary, so the calls to
  \<^verbatim>\<open>close\<close> may fail as they like: the value at the return does not depend on them.
\<close>

theorem errno_at_return_is_the_originating_error:
  assumes "ForkAndExecProcess nd k a s = Some (Returned rv, s')" and "rv \<noteq> 0"
  shows "(if null_argument a \<or> bad_redirect a
          then errno s' = EINVAL \<and> new_events s s' = []
          else \<exists>pre e ds. new_events s s' = pre @ e # map Close ds
                 \<and> e \<in> {Access (the (filename a)) X_OK, Pipe None, Fork}
                 \<and> setup_ok k s (length pre)
                 \<and> fault k (now s + length pre) = Some (errno s'))"
  using assms(1)
proof (cases rule: ForkAndExecProcess_runs)
  case aborted
  then show ?thesis by simp
next
  case rejected
  from rejected(5) have "out = Returned (-1)" if "out = Returned rv" for out
    using that by (auto split: if_splits)
  with rejected show ?thesis by (auto simp: new_events_def split: if_splits)
next
  case (no_access e)
  have n: "new_events s s' = [] @ Access (the (filename a)) X_OK # map Close []"
    using no_access(8) by (simp add: new_events_def)
  have ok: "setup_ok k s (length ([]::event list))" by (auto simp: setup_ok_def)
  have f: "fault k (now s + length ([]::event list)) = Some (errno s')"
    using no_access(3,5) by simp
  show ?thesis by (rule originating_errorI [OF no_access(1,2) n _ ok f]) simp
next
  case (no_pipe A B C e)
  have n: "new_events s s' = prologue a A B C @ Pipe None
          # map Close (filter (\<lambda>d. 0 \<le> d) [fst A, snd B, snd C, snd A, fst B, fst C])"
    using no_pipe(10) by (simp add: new_events_def all_closes_def closes_def)
  have f: "fault k (now s + length (prologue a A B C)) = Some (errno s')"
    using no_pipe(5,7) by simp
  show ?thesis by (rule originating_errorI [OF no_pipe(1,2) n _ no_pipe(4) f]) simp
next
  case (no_fork A B C e)
  have n: "new_events s s' = prologue a A B C @ Fork
          # map Close (filter (\<lambda>d. 0 \<le> d) [fst A, snd B, snd C, snd A, fst B, fst C])"
    using no_fork(11) by (simp add: new_events_def all_closes_def closes_def)
  have f: "fault k (now s + length (prologue a A B C)) = Some (errno s')"
    using no_fork(6,8) by simp
  show ?thesis by (rule originating_errorI [OF no_fork(1,2) n _ no_fork(5) f]) simp
next
  case (child A B C s5)
  from child_events_of_run [OF child(8,7)] show ?thesis by auto
next
  case (parent A B C p1 p2 p3)
  with assms(2) show ?thesis by simp
qed

theorem errno_at_return_is_the_originating_error_witness:
  "ForkAndExecProcess True (scripted [(2, 24), (4, 5)] 4242) request shell
     = Some (Returned (-1), second_pipe_refused)
   \<and> fault (scripted [(2, 24), (4, 5)] 4242) 2 = Some 24
   \<and> fault (scripted [(2, 24), (4, 5)] 4242) 4 = Some 5
   \<and> new_events shell second_pipe_refused
       = [Access ''/bin/cat'' 1, Pipe (Some (3, 4))] @ Pipe None # map Close [3, 4]
   \<and> errno second_pipe_refused = 24"
proof -
  have "(-1::int) \<noteq> 0" by simp
  from errno_at_return_is_the_originating_error [OF run_second_pipe_refused this]
  obtain pre e ds where
    n: "new_events shell second_pipe_refused = pre @ e # map Close ds"
      "e \<in> {Access (the (filename request)) X_OK, Pipe None, Fork}"
      "fault (scripted [(2, 24), (4, 5)] 4242) (now shell + length pre) = Some (errno second_pipe_refused)"
    using valid_request by auto
  have t: "new_events shell second_pipe_refused
       = [Access ''/bin/cat'' 1, Pipe (Some (3, 4))] @ Pipe None # map Close [3, 4]"
    by (simp add: new_events_def shell_def second_pipe_refused_def)
  have "pre = [Access ''/bin/cat'' 1, Pipe (Some (3, 4))]"
  proof -
    from n(1) t have eq: "pre @ e # map Close ds = [Access ''/bin/cat'' 1, Pipe (Some (3, 4)), Pipe None, Close 3, Close 4]"
      by simp
    from n(2) have ne: "\<And>d. e \<noteq> Close d" by auto
    show ?thesis
    proof (cases pre)
      case Nil
      with eq n(2) show ?thesis by auto
    next
      case c1: (Cons x1 p1)
      show ?thesis
      proof (cases p1)
        case Nil
        with eq c1 n(2) show ?thesis by auto
      next
        case c2: (Cons x2 p2)
        show ?thesis
        proof (cases p2)
          case Nil
          with eq c1 c2 show ?thesis by auto
        next
          case c3: (Cons x3 p3)
          with eq c1 c2 ne show ?thesis
            by (cases p3; cases "tl p3") (auto simp: Cons_eq_append_conv)
        qed
      qed
    qed
  qed
  with n(3) have "errno second_pipe_refused = 24"
    by (simp add: scripted_def now_def shell_def)
  moreover have "fault (scripted [(2, 24), (4, 5)] 4242) 2 = Some 24"
    "fault (scripted [(2, 24), (4, 5)] 4242) 4 = Some 5"
    by (simp_all add: scripted_def)
  ultimately show ?thesis using run_second_pipe_refused t by simp
qed

text \<open>
  C7. Of a run in which \<^verbatim>\<open>fork\<close> returned 0, the calls after \<^verbatim>\<open>fork\<close> are, in this order:
  the closes of the parent's ends (write end of the stdin pipe, read ends of the stdout and
  stderr pipes); for each requested redirection the \<^verbatim>\<open>dup2\<close> onto 0, 1, 2, each possibly
  repeated; the closes of the child's own pipe ends; \<^verbatim>\<open>chdir\<close> if a directory was given,
  possibly repeated; \<^verbatim>\<open>setsid\<close> if bit 0 of the creation flags is set, possibly repeated;
  \<^verbatim>\<open>execve\<close>. Either the run is all of this list and the image is replaced, or it is a
  prefix of it that ends with a \<^verbatim>\<open>dup2\<close>, \<^verbatim>\<open>chdir\<close>, \<^verbatim>\<open>setsid\<close> or \<^verbatim>\<open>execve\<close> that failed
  (not with \<^verbatim>\<open>EINTR\<close>, for the first three), followed by \<^verbatim>\<open>_exit\<close> with \<^verbatim>\<open>errno\<close> (or
  \<^verbatim>\<open>EXIT_FAILURE\<close> when \<^verbatim>\<open>errno\<close> is 0) and by nothing else: the child never returns to the
  caller.

  A failure is the end of the child. Every \<^verbatim>\<open>dup2\<close>, \<^verbatim>\<open>chdir\<close>, \<^verbatim>\<open>setsid\<close> and \<^verbatim>\<open>execve\<close>
  of the run that is followed by another call (every one, when the image is replaced)
  either succeeded or was interrupted and is followed by the same call again. So when the
  kernel fails one of these calls, other than by interrupting a \<^verbatim>\<open>dup2\<close>, \<^verbatim>\<open>chdir\<close> or
  \<^verbatim>\<open>setsid\<close>, the next and last event of the child is \<^verbatim>\<open>_exit\<close>, whose status is the error
  of that call (or \<^verbatim>\<open>EBADF\<close>, for a \<^verbatim>\<open>dup2\<close> of a descriptor that is not open).

  Each of the three retry loops repeats its call exactly as long as the call is
  interrupted, a loop that does not return \<open>-1\<close> ends with a call that succeeded, and the
  whole function returns, exits or replaces the image as soon as the kernel stops
  interrupting.
\<close>

theorem child_runs_its_steps_in_order:
  "(interrupts_end k \<longrightarrow> (\<exists>r. ForkAndExecProcess nd k a s = Some r))
   \<and> (\<forall>out s'. ForkAndExecProcess nd k a s = Some (out, s') \<and> forked_as_child k s s' \<longrightarrow>
         (\<exists>A B C n1 n2 n3 n4 n5 s5. flags_match a A B C \<and> fresh_pipes s A B C
            \<and> trace s5 = trace s @ prologue a A B C @ [Fork]
            \<and> child_run k (concat (child_steps a A B C n1 n2 n3 n4 n5)) s5 out s'
            \<and> (\<forall>i<length (new_events s5 s').
                  out = Replaced \<or> Suc (Suc i) < length (new_events s5 s')
                    \<longrightarrow> went_on k (now s5) (new_events s5 s') i)
            \<and> (\<forall>i e. i < length (new_events s5 s') \<and> fallible (new_events s5 s' ! i)
                   \<and> fault k (now s5 + i) = Some e
                   \<and> \<not> (retrying (new_events s5 s' ! i) \<and> e = EINTR) \<longrightarrow>
                  (out = Exited (if e \<noteq> 0 then e else EXIT_FAILURE)
                     \<or> (out = Exited EBADF
                          \<and> (\<exists>oldfd newfd. new_events s5 s' ! i = Dup2 oldfd newfd)))
                  \<and> (\<exists>st. out = Exited st
                        \<and> new_events s5 s' = take (Suc i) (new_events s5 s') @ [Exit st]))))
   \<and> (\<forall>oldfd newfd t rs. Dup2WithInterruptedRetry k oldfd newfd t = Some rs \<longrightarrow>
         repeated_while_interrupted k (Dup2 oldfd newfd) t rs)
   \<and> (\<forall>dir t rs. chdir_retry k dir t = Some rs \<longrightarrow> repeated_while_interrupted k (Chdir dir) t rs)
   \<and> (\<forall>t rs. setsid_retry k t = Some rs \<longrightarrow> repeated_while_interrupted k Setsid t rs)"
proof (intro conjI allI impI)
  assume "interrupts_end k"
  then show "\<exists>r. ForkAndExecProcess nd k a s = Some r" by (rule ForkAndExecProcess_returns)
next
  fix out s'
  assume r: "ForkAndExecProcess nd k a s = Some (out, s') \<and> forked_as_child k s s'"
  then obtain A B C s5 where c: "fresh_pipes s A B C" "flags_match a A B C"
    "trace s5 = trace s @ prologue a A B C @ [Fork]" "child_branch k a A B C s5 = Some (out, s')"
    using child_of_run [of nd k a s out s'] by blast
  from child_branch_runs [OF c(4)] obtain n1 n2 n3 n4 n5 where
    run: "child_run k (concat (child_steps a A B C n1 n2 n3 n4 n5)) s5 out s'" by blast
  note calls = child_branch_calls [OF c(4)]
  note w = earlier_calls_went_on [OF calls]
  have d: "\<forall>i e. i < length (new_events s5 s') \<and> fallible (new_events s5 s' ! i)
                   \<and> fault k (now s5 + i) = Some e
                   \<and> \<not> (retrying (new_events s5 s' ! i) \<and> e = EINTR) \<longrightarrow>
                  (out = Exited (if e \<noteq> 0 then e else EXIT_FAILURE)
                     \<or> (out = Exited EBADF
                          \<and> (\<exists>oldfd newfd. new_events s5 s' ! i = Dup2 oldfd newfd)))
                  \<and> (\<exists>st. out = Exited st
                        \<and> new_events s5 s' = take (Suc i) (new_events s5 s') @ [Exit st])"
    using failed_call_exits [OF calls] by blast
  from c(1-3) run w d
  show "\<exists>A B C n1 n2 n3 n4 n5 s5. flags_match a A B C \<and> fresh_pipes s A B C
            \<and> trace s5 = trace s @ prologue a A B C @ [Fork]
            \<and> child_run k (concat (child_steps a A B C n1 n2 n3 n4 n5)) s5 out s'
            \<and> (\<forall>i<length (new_events s5 s').
                  out = Replaced \<or> Suc (Suc i) < length (new_events s5 s')
                    \<longrightarrow> went_on k (now s5) (new_events s5 s') i)
            \<and> (\<forall>i e. i < length (new_events s5 s') \<and> fallible (new_events s5 s' ! i)
                   \<and> fault k (now s5 + i) = Some e
                   \<and> \<not> (retrying (new_events s5 s' ! i) \<and> e = EINTR) \<longrightarrow>
                  (out = Exited (if e \<noteq> 0 then e else EXIT_FAILURE)
                     \<or> (out = Exited EBADF
                          \<and> (\<exists>oldfd newfd. new_events s5 s' ! i = Dup2 oldfd newfd)))
                  \<and> (\<exists>st. out = Exited st
                        \<and> new_events s5 s' = take (Suc i) (new_events s5 s') @ [Exit st]))"
    by blast
next
  fix oldfd newfd t rs
  assume "Dup2WithInterruptedRetry k oldfd newfd t = Some rs"
  then show "repeated_while_interrupted k (Dup2 oldfd newfd) t rs"
    by (rule Dup2WithInterruptedRetry_interrupted)
next
  fix dir t rs
  assume "chdir_retry k dir t = Some rs"
  then show "repeated_while_interrupted k (Chdir dir) t rs" by (rule chdir_retry_interrupted)
next
  fix t rs
  assume "setsid_retry k t = Some rs"
  then show "repeated_while_interrupted k Setsid t rs" by (rule setsid_retry_interrupted)
qed

theorem child_runs_its_steps_in_order_witness:
  "interrupts_end (scripted [(10, 4), (11, 2)] 0)
   \<and> ForkAndExecProcess True (scripted [(10, 4), (11, 2)] 0) request shell
       = Some (Exited 2, no_such_directory)
   \<and> forked_as_child (scripted [(10, 4), (11, 2)] 0) shell no_such_directory
   \<and> fault (scripted [(10, 4), (11, 2)] 0) 10 = Some EINTR
   \<and> fault (scripted [(10, 4), (11, 2)] 0) 11 = Some 2
   \<and> drop 10 (new_events shell no_such_directory) = [Chdir ''/tmp'', Chdir ''/tmp'', Exit 2]
   \<and> (\<exists>A B C n1 n2 n3 n4 n5 s5. flags_match request A B C \<and> fresh_pipes shell A B C
          \<and> trace s5 = trace shell @ prologue request A B C @ [Fork]
          \<and> child_run (scripted [(10, 4), (11, 2)] 0)
               (concat (child_steps request A B C n1 n2 n3 n4 n5)) s5 (Exited 2) no_such_directory
          \<and> went_on (scripted [(10, 4), (11, 2)] 0) (now s5) (new_events s5 no_such_directory) 6
          \<and> new_events s5 no_such_directory = take 8 (new_events s5 no_such_directory) @ [Exit 2])"
proof -
  let ?k = "scripted [(10, 4), (11, 2)] 0"
  note t = child_runs_its_steps_in_order [of ?k True request shell]
  from t [THEN conjunct2, THEN conjunct1, rule_format, of "Exited 2" no_such_directory,
          OF conjI [OF run_no_such_directory forked_no_such_directory]]
  obtain A B C n1 n2 n3 n4 n5 s5 where
    c: "flags_match request A B C" "fresh_pipes shell A B C"
       "trace s5 = trace shell @ prologue request A B C @ [Fork]"
       "child_run ?k (concat (child_steps request A B C n1 n2 n3 n4 n5)) s5 (Exited 2) no_such_directory"
    and w: "\<forall>i<length (new_events s5 no_such_directory).
              Exited 2 = Replaced \<or> Suc (Suc i) < length (new_events s5 no_such_directory)
                \<longrightarrow> went_on ?k (now s5) (new_events s5 no_such_directory) i"
    and d: "\<forall>i e. i < length (new_events s5 no_such_directory)
              \<and> fallible (new_events s5 no_such_directory ! i)
              \<and> fault ?k (now s5 + i) = Some e
              \<and> \<not> (retrying (new_events s5 no_such_directory ! i) \<and> e = EINTR) \<longrightarrow>
              (Exited 2 = Exited (if e \<noteq> 0 then e else EXIT_FAILURE)
                 \<or> (Exited 2 = Exited EBADF
                      \<and> (\<exists>oldfd newfd. new_events s5 no_such_directory ! i = Dup2 oldfd newfd)))
              \<and> (\<exists>st. Exited 2 = Exited st
                    \<and> new_events s5 no_such_directory
                        = take (Suc i) (new_events s5 no_such_directory) @ [Exit st])"
    by blast
  have l: "length (trace s5) = 4"
    using c(3) requested_prologue [OF c(1)] by (simp add: shell_def requested_def request_def)
  then have n: "now s5 = 4" by (simp add: now_def)
  have e: "new_events s5 no_such_directory =
      [Close 4, Close 5, Dup2 3 0, Dup2 6 1, Close 3, Close 6, Chdir ''/tmp'', Chdir ''/tmp'', Exit 2]"
    unfolding new_events_def l by (simp add: no_such_directory_def)
  from w have w6: "went_on ?k (now s5) (new_events s5 no_such_directory) 6"
    unfolding e by simp
  have "fault ?k (now s5 + 7) = Some 2" unfolding n by (simp add: scripted_def)
  with d [rule_format, of 7 2]
  have "\<exists>st. Exited 2 = Exited st
       \<and> new_events s5 no_such_directory = take (Suc 7) (new_events s5 no_such_directory) @ [Exit st]"
    unfolding e by (simp add: EINTR_def)
  then have x: "new_events s5 no_such_directory = take 8 (new_events s5 no_such_directory) @ [Exit 2]"
    by auto
  have "fault ?k 10 = Some EINTR" "fault ?k 11 = Some 2"
    "drop 10 (new_events shell no_such_directory) = [Chdir ''/tmp'', Chdir ''/tmp'', Exit 2]"
    by (simp_all add: scripted_def EINTR_def new_events_def shell_def no_such_directory_def)
  with c w6 x run_no_such_directory forked_no_such_directory interrupts_end_scripted
  show ?thesis by blast
qed



text \<open>
  C9. \<^verbatim>\<open>CREATE_NEW_PROCESS_SESSION\<close> is 1, and bit 0 is the only bit of the creation flags
  the function reads: two calls that differ only in creation flags with the same bit 0 have
  the same result, final state and list of system calls, for every kernel and every build.
  A run calls \<^verbatim>\<open>setsid\<close> exactly when bit 0 is set, \<^verbatim>\<open>fork\<close> returned 0 (the run is the
  child's), and the child did not \<^verbatim>\<open>_exit\<close> on a failed \<^verbatim>\<open>dup2\<close> or \<^verbatim>\<open>chdir\<close> before it
  got to the session step.
\<close>

theorem only_the_session_bit_is_read:
  "CREATE_NEW_PROCESS_SESSION = 1
   \<and> (c AND 1 = c' AND 1 \<longrightarrow>
        ForkAndExecProcess nd k (a\<lparr>creationFlags := c\<rparr>) s
          = ForkAndExecProcess nd k (a\<lparr>creationFlags := c'\<rparr>) s)
   \<and> (\<forall>out s'. ForkAndExecProcess nd k a s = Some (out, s') \<longrightarrow>
        (Setsid \<in> set (new_events s s') \<longleftrightarrow>
           creationFlags a AND 1 \<noteq> 0 \<and> forked_as_child k s s' \<and> \<not> died_before_session s s'))"
proof (intro conjI allI impI)
  show "CREATE_NEW_PROCESS_SESSION = 1" by (simp add: CREATE_NEW_PROCESS_SESSION_def)
next
  assume "c AND 1 = c' AND 1"
  then have "c AND CREATE_NEW_PROCESS_SESSION = c' AND CREATE_NEW_PROCESS_SESSION"
    by (simp add: CREATE_NEW_PROCESS_SESSION_def)
  then show "ForkAndExecProcess nd k (a\<lparr>creationFlags := c\<rparr>) s
          = ForkAndExecProcess nd k (a\<lparr>creationFlags := c'\<rparr>) s"
    by (rule ForkAndExecProcess_session_bit)
next
  fix out s'
  assume "ForkAndExecProcess nd k a s = Some (out, s')"
  from Setsid_of_run [OF this]
  show "Setsid \<in> set (new_events s s') \<longleftrightarrow>
           creationFlags a AND 1 \<noteq> 0 \<and> forked_as_child k s s' \<and> \<not> died_before_session s s'"
    by (simp add: CREATE_NEW_PROCESS_SESSION_def)
qed

theorem only_the_session_bit_is_read_witness:
  "(1 :: int32) AND 1 = 0xFFFFFFFF AND 1
   \<and> ForkAndExecProcess True (scripted [(6, 4)] 0) (request\<lparr>creationFlags := 1\<rparr>) shell
       = Some (Replaced, launched)
   \<and> ForkAndExecProcess True (scripted [(6, 4)] 0) (request\<lparr>creationFlags := 0xFFFFFFFF\<rparr>) shell
       = Some (Replaced, launched)
   \<and> creationFlags (request\<lparr>creationFlags := 0xFFFFFFFF\<rparr>) AND 1 \<noteq> 0
   \<and> forked_as_child (scripted [(6, 4)] 0) shell launched
   \<and> \<not> died_before_session shell launched
   \<and> Setsid \<in> set (new_events shell launched)"
proof -
  have b: "(1 :: int32) AND 1 = 0xFFFFFFFF AND 1" by simp
  have r: "request\<lparr>creationFlags := 1\<rparr> = request" by (simp add: request_def)
  note t = only_the_session_bit_is_read
    [of 1 "0xFFFFFFFF" True "scripted [(6, 4)] 0" request shell]
  from t b have e: "ForkAndExecProcess True (scripted [(6, 4)] 0) (request\<lparr>creationFlags := 1\<rparr>) shell
     = ForkAndExecProcess True (scripted [(6, 4)] 0) (request\<lparr>creationFlags := 0xFFFFFFFF\<rparr>) shell"
    by blast
  have s: "Setsid \<in> set (new_events shell launched)"
    by (simp add: new_events_def shell_def launched_def)
  from t run_launched have "Setsid \<in> set (new_events shell launched) \<longleftrightarrow>
      creationFlags request AND 1 \<noteq> 0 \<and> forked_as_child (scripted [(6, 4)] 0) shell launched
        \<and> \<not> died_before_session shell launched"
    by blast
  with s have "\<not> died_before_session shell launched" by simp
  with b e s run_launched r forked_launched show ?thesis by simp
qed

text \<open>
  C10. The claim is that a null out pointer is rejected with \<open>-1\<close> and never stored
  through. In a build that defines \<^verbatim>\<open>NDEBUG\<close> the code does the opposite: with any of the
  four out pointers null it makes no system call, reaches the failure branch of \<open>done\<close> and
  stores \<open>-1\<close> through the out pointers in the order \<^verbatim>\<open>stdinFd\<close>, \<^verbatim>\<open>stdoutFd\<close>,
  \<^verbatim>\<open>stderrFd\<close>, \<^verbatim>\<open>childPid\<close> until it stores through the null one. It never returns.
\<close>

theorem null_out_pointer_is_stored_through:
  assumes "nd"
    and "stdinFd a = None \<or> stdoutFd a = None \<or> stderrFd a = None \<or> childPid a = None"
  shows "\<exists>s'. ForkAndExecProcess nd k a s = Some (Faulted, s') \<and> new_events s s' = []
           \<and> (stdinFd a \<noteq> None \<longrightarrow> mem s' (the (stdinFd a)) = -1)"
proof -
  from assms(2) have inv: "null_argument a \<or> bad_redirect a" by (auto simp: null_argument_def)
  let ?s0 = "s\<lparr>errno := EINVAL\<rparr>"
  let ?r = "done_label k a False no_pipe no_pipe no_pipe ?s0"
  have r: "ForkAndExecProcess nd k a s = Some (fst ?r, snd ?r)"
    using rejected_run [OF inv, of nd k s] assms(1) by simp
  have "fst ?r = Faulted" using assms(2) by (auto simp: done_label_any(3))
  moreover have "new_events s (snd ?r) = []"
    by (simp add: new_events_def done_label_any(1) closes_def no_pipe_def)
  moreover have "mem (snd ?r) (the (stdinFd a)) = -1" if "stdinFd a \<noteq> None"
    using that assms(2)
    by (auto simp: done_label_unfold store_def Let_def split: option.splits)
  ultimately show ?thesis using r by auto
qed

theorem null_out_pointer_is_stored_through_witness:
  "childPid (request\<lparr>childPid := None\<rparr>) = None
   \<and> ForkAndExecProcess True (scripted [] 4242) (request\<lparr>childPid := None\<rparr>) shell
       = Some (Faulted, stored_through_null)
   \<and> mem stored_through_null 11 = -1 \<and> mem shell 11 = 0"
proof -
  have h: "stdinFd (request\<lparr>childPid := None\<rparr>) = None \<or> stdoutFd (request\<lparr>childPid := None\<rparr>) = None
      \<or> stderrFd (request\<lparr>childPid := None\<rparr>) = None \<or> childPid (request\<lparr>childPid := None\<rparr>) = None"
    by simp
  from null_out_pointer_is_stored_through [OF TrueI h, of "scripted [] 4242" shell]
  have "mem stored_through_null 11 = -1"
    unfolding run_stored_through_null by (simp add: request_def)
  with run_stored_through_null show ?thesis by (simp add: shell_def)
qed

end
